theory Spec2Isabelle
  imports Main "HOL-Library.Word" "HOL-Library.Signed_Division"
begin

section \<open>Test-input generators: a tree with queries, and budgeted digit-string pairs\<close>

text \<open>
  The two programs embedded here are \<^verbatim>\<open>datastructure/vertex_add_path_sum/gen/line.cpp\<close>
  and \<^verbatim>\<open>math/division_of_big_integers/gen/medium.cpp\<close>. Both include
  \<^verbatim>\<open>random.h\<close> (the class \<^verbatim>\<open>Random\<close>) and \<^verbatim>\<open>../params.h\<close> (the limit
  constants); neither header is part of the sources at hand. The limit constants
  \<^verbatim>\<open>N_AND_Q_MAX\<close>, \<^verbatim>\<open>A_AND_X_MAX\<close> and \<^verbatim>\<open>SUM_OF_CHARACTER_LENGTH\<close> are
  therefore arguments of the embedded programs, and the random source is an argument
  too: a record of the three operations the programs call.

  Conventions. The seed is a \<open>long long\<close>, modelled as a 64-bit word and read as a
  signed number with \<open>sint\<close>; \<open>seed + 12345\<close> is an addition of \<open>long long\<close>
  values, which has no defined result when the sum is above \<open>2^63 - 1\<close>; whatever it
  yields reaches the opaque constructor of the engine only. The limit constants and the
  values drawn stand for the \<open>int\<close> values of the program. Two \<open>int\<close> values of the
  programs can leave the range of a 32-bit \<open>int\<close>, the running total \<open>lsum\<close> and the
  conversion \<open>(int)A.size()\<close>; both are reduced to 32 bits with \<open>int32\<close>. The loop
  indices stay below a bound that is an \<open>int\<close>. What a program prints is modelled as the
  sequence of tokens it prints. A run that ends in an exception has an \<open>error\<close> as its
  result.
\<close>

subsection \<open>Errors\<close>

datatype error =
    InvalidRangeError  \<comment> \<open>\<open>uniform(lo, hi)\<close> called with \<open>lo > hi\<close>\<close>
  | LengthError        \<comment> \<open>\<open>std::vector\<close> constructed with a size above \<open>max_size()\<close>\<close>
  | IndexOutOfRange    \<comment> \<open>\<open>operator[]\<close> applied to an index that is not below the size\<close>

subsection \<open>The random source\<close>

text \<open>
  The state of the pseudo-random engine is a type parameter \<open>'g\<close>. The engine is opaque:
  \<open>construct\<close> is the constructor \<^verbatim>\<open>Random(seed)\<close>, \<open>draw lo hi\<close> is what
  \<^verbatim>\<open>uniform(lo, hi)\<close> returns on a valid range, and \<open>draw_perm n\<close> is what
  \<^verbatim>\<open>perm<int>(n)\<close> returns; the latter two also return the advanced state.
\<close>

record 'g random_source =
  construct :: "64 word \<Rightarrow> 'g"
  draw :: "int \<Rightarrow> int \<Rightarrow> 'g \<Rightarrow> int \<times> 'g"
  draw_perm :: "nat \<Rightarrow> 'g \<Rightarrow> int list \<times> 'g"

text \<open>
  Modelled from the spec: \<^verbatim>\<open>Random::uniform\<close> of the missing \<^verbatim>\<open>random.h\<close>. The call
  fails with \<open>InvalidRangeError\<close> if \<open>lo > hi\<close>, and otherwise returns the engine's draw
  and advances the state.
\<close>

definition uniform :: "'g random_source \<Rightarrow> int \<Rightarrow> int \<Rightarrow> 'g \<Rightarrow> error + (int \<times> 'g)" where
  "uniform R lo hi g = (if lo > hi then Inl InvalidRangeError else Inr (draw R lo hi g))"

text \<open>
  Modelled from the spec: the contract of the missing \<^verbatim>\<open>random.h\<close>. On a valid range
  \<open>uniform\<close> returns a value between the bounds, both included; \<open>permutation(n)\<close>
  returns a sequence of length \<open>n\<close> that contains each integer of \<open>[0, n)\<close> exactly once.
\<close>

definition is_permutation :: "nat \<Rightarrow> int list \<Rightarrow> bool" where
  "is_permutation n p \<longleftrightarrow> length p = n \<and> (\<forall>k \<in> {0..<int n}. count_list p k = 1)"

definition random_source_ok :: "'g random_source \<Rightarrow> bool" where
  "random_source_ok R \<longleftrightarrow>
     (\<forall>lo hi g. lo \<le> hi \<longrightarrow> lo \<le> fst (draw R lo hi g) \<and> fst (draw R lo hi g) \<le> hi) \<and>
     (\<forall>n g. is_permutation n (fst (draw_perm R n g)))"

text \<open>
  A small concrete random source, used to run the programs on examples: the state is a
  counter, a draw returns the counter reduced into the range, and a permutation is the
  identity rotated by the counter.
\<close>

definition counter_source :: "nat random_source" where
  "counter_source =
     \<lparr> construct = unat,
       draw = (\<lambda>lo hi g. (lo + int g mod (hi - lo + 1), Suc g)),
       draw_perm = (\<lambda>n g. (map int (rotate g [0..<n]), Suc g)) \<rparr>"

subsection \<open>Vectors\<close>

text \<open>
  \<^verbatim>\<open>vector<int> u(k)\<close> with an \<open>int\<close> expression \<open>k\<close>: the argument is converted to
  \<open>size_t\<close>, so a negative \<open>k\<close> becomes a size of at least \<open>2^63\<close>, above \<open>max_size()\<close>,
  and the constructor throws. Otherwise the vector holds \<open>k\<close> zeros.
\<close>

definition vector_int :: "int \<Rightarrow> error + int list" where
  "vector_int k = (if k < 0 then Inl LengthError else Inr (replicate (nat k) 0))"

text \<open>
  \<^verbatim>\<open>xs[i]\<close> with an \<open>int\<close> index: the index is converted to \<open>size_t\<close>, so a negative
  index is out of range as well.
\<close>

definition at :: "'a list \<Rightarrow> int \<Rightarrow> error + 'a" where
  "at xs i = (if 0 \<le> i \<and> i < int (length xs) then Inr (xs ! nat i) else Inl IndexOutOfRange)"

subsection \<open>32-bit integers\<close>

text \<open>
  The conversion of an integer to a 32-bit \<open>int\<close>: the value is reduced modulo \<open>2^32\<close>
  into the range from \<open>-2^31\<close> to \<open>2^31 - 1\<close>.
\<close>

definition int32 :: "int \<Rightarrow> int" where
  "int32 k = (k + 2147483648) mod 4294967296 - 2147483648"

subsection \<open>The Tree-Query Generator (\<^verbatim>\<open>line.cpp\<close>)\<close>

record line_output =
  first_line :: "int \<times> int"
  value_line :: "int list"
  edge_lines :: "(int \<times> int) list"
  query_lines :: "(int \<times> int \<times> int) list"

text \<open>Lines 15--18: the loop that draws and prints the vertex values.\<close>

function vertex_values ::
  "'g random_source \<Rightarrow> int \<Rightarrow> int \<Rightarrow> int \<Rightarrow> 'g \<Rightarrow> int list \<Rightarrow> error + (int list \<times> 'g)" where
  "vertex_values R n X i g out =
     (if i < n then
        (case uniform R 0 X g of
           Inl e \<Rightarrow> Inl e
         | Inr (a, g') \<Rightarrow> vertex_values R n X (i + 1) g' (out @ [a]))
      else Inr (out, g))"
  by pat_completeness auto
termination
  by (relation "measure (\<lambda>(R, n, X, i, g, out). nat (n - i))") simp_all

text \<open>Lines 22--25: \<open>u[i] = i; v[i] = i + 1\<close> for \<open>i < n - 1\<close>.\<close>

function path_edges :: "int \<Rightarrow> int \<Rightarrow> int list \<Rightarrow> int list \<Rightarrow> int list \<times> int list" where
  "path_edges n i u v =
     (if i < n - 1 then path_edges n (i + 1) (u[nat i := i]) (v[nat i := i + 1])
      else (u, v))"
  by pat_completeness auto
termination
  by (relation "measure (\<lambda>(n, i, u, v). nat (n - 1 - i))") simp_all

text \<open>Lines 29--32: \<open>u[i] = perm[u[i]]; v[i] = perm[v[i]]\<close> for \<open>i < n - 1\<close>.\<close>

function relabel ::
  "int list \<Rightarrow> int \<Rightarrow> int \<Rightarrow> int list \<Rightarrow> int list \<Rightarrow> error + (int list \<times> int list)" where
  "relabel perm n i u v =
     (if i < n - 1 then
        (case at perm (u ! nat i) of
           Inl e \<Rightarrow> Inl e
         | Inr pu \<Rightarrow>
             (case at perm (v ! nat i) of
                Inl e \<Rightarrow> Inl e
              | Inr pv \<Rightarrow> relabel perm n (i + 1) (u[nat i := pu]) (v[nat i := pv])))
      else Inr (u, v))"
  by pat_completeness auto
termination
  by (relation "measure (\<lambda>(perm, n, i, u, v). nat (n - 1 - i))") simp_all

text \<open>Lines 35--37: one line \<open>u[i] v[i]\<close> for each \<open>i < n - 1\<close>.\<close>

function print_edges ::
  "int \<Rightarrow> int \<Rightarrow> int list \<Rightarrow> int list \<Rightarrow> (int \<times> int) list \<Rightarrow> (int \<times> int) list" where
  "print_edges n i u v out =
     (if i < n - 1 then print_edges n (i + 1) u v (out @ [(u ! nat i, v ! nat i)])
      else out)"
  by pat_completeness auto
termination
  by (relation "measure (\<lambda>(n, i, u, v, out). nat (n - 1 - i))") simp_all

text \<open>Lines 39--51: the query loop. A printed query is the triple of its three tokens.\<close>

function queries ::
  "'g random_source \<Rightarrow> int \<Rightarrow> int \<Rightarrow> int \<Rightarrow> int \<Rightarrow> 'g \<Rightarrow> (int \<times> int \<times> int) list \<Rightarrow>
     error + ((int \<times> int \<times> int) list \<times> 'g)" where
  "queries R n X q i g out =
     (if i < q then
        (case uniform R 0 1 g of
           Inl e \<Rightarrow> Inl e
         | Inr (t, g1) \<Rightarrow>
             if t = 0 then
               (case uniform R 0 (n - 1) g1 of
                  Inl e \<Rightarrow> Inl e
                | Inr (p, g2) \<Rightarrow>
                    (case uniform R 0 X g2 of
                       Inl e \<Rightarrow> Inl e
                     | Inr (x, g3) \<Rightarrow> queries R n X q (i + 1) g3 (out @ [(t, p, x)])))
             else
               (case uniform R 0 (n - 1) g1 of
                  Inl e \<Rightarrow> Inl e
                | Inr (u, g2) \<Rightarrow>
                    (case uniform R 0 (n - 1) g2 of
                       Inl e \<Rightarrow> Inl e
                     | Inr (v, g3) \<Rightarrow> queries R n X q (i + 1) g3 (out @ [(t, u, v)]))))
      else Inr (out, g))"
  by pat_completeness auto
termination
  by (relation "measure (\<lambda>(R, n, X, q, i, g, out). nat (q - i))") simp_all

text \<open>
  \<open>main\<close> of \<^verbatim>\<open>line.cpp\<close>, with the limit constants \<open>N_AND_Q_MAX\<close> and \<open>A_AND_X_MAX\<close>
  as the arguments \<open>N\<close> and \<open>X\<close>. The permutation is drawn after both vectors have been
  constructed, so its size \<open>n\<close> is not negative there.
\<close>

definition line_main :: "'g random_source \<Rightarrow> int \<Rightarrow> int \<Rightarrow> 64 word \<Rightarrow> error + line_output" where
  "line_main R N X seed =
     (let g0 = construct R seed; n = N; q = N in
      case vertex_values R n X 0 g0 [] of
        Inl e \<Rightarrow> Inl e
      | Inr (vals, g1) \<Rightarrow>
          (case vector_int (n - 1) of
             Inl e \<Rightarrow> Inl e
           | Inr u0 \<Rightarrow>
               (case vector_int (n - 1) of
                  Inl e \<Rightarrow> Inl e
                | Inr v0 \<Rightarrow>
                    (case path_edges n 0 u0 v0 of
                       (u1, v1) \<Rightarrow>
                         (case draw_perm R (nat n) g1 of
                            (perm, g2) \<Rightarrow>
                              (case relabel perm n 0 u1 v1 of
                                 Inl e \<Rightarrow> Inl e
                               | Inr (u2, v2) \<Rightarrow>
                                   (case queries R n X q 0 g2 [] of
                                      Inl e \<Rightarrow> Inl e
                                    | Inr (qs, g3) \<Rightarrow>
                                        Inr \<lparr> first_line = (n, q),
                                              value_line = vals,
                                              edge_lines = print_edges n 0 u2 v2 [],
                                              query_lines = qs \<rparr>)))))))"

subsection \<open>The Bounded-Digit-Pair Generator (\<^verbatim>\<open>medium.cpp\<close>)\<close>

text \<open>
  Line 12: \<^verbatim>\<open>int upper = vector{10, 300, 10000}[seed % 3]\<close>. The remainder of C++
  truncates towards zero, so it has the sign of \<open>seed\<close>; \<open>operator[]\<close> takes a
  \<open>size_t\<close>, so the remainder is converted to an unsigned 64-bit index.
\<close>

definition tiers :: "int list" where
  "tiers = [10, 300, 10000]"

definition tier :: "64 word \<Rightarrow> error + int" where
  "tier seed =
     (let idx = unat (word_of_int (sint seed smod 3) :: 64 word) in
      if idx < length tiers then Inr (tiers ! idx) else Inl IndexOutOfRange)"

text \<open>
  \<open>tier\<close> is the read when the index is in range, and otherwise marks that it is not.
  \<open>operator[]\<close> does not check the index: when it is out of range the program reads
  the \<open>int\<close> that is stored at that place outside the table and goes on with it as
  \<open>upper\<close>. This \<open>int\<close> is not determined by the program; it is the argument
  \<open>stray\<close> of the model.
\<close>

definition read_upper :: "int \<Rightarrow> 64 word \<Rightarrow> int" where
  "read_upper stray seed = (case tier seed of Inl e \<Rightarrow> stray | Inr upper \<Rightarrow> upper)"

text \<open>
  Line 11: \<^verbatim>\<open>Random(seed + 12345)\<close>. The sum is computed in \<open>long long\<close>. When it
  is above \<open>2^63 - 1\<close> the signed addition overflows, and the value that the engine is
  constructed from is not determined by the program; it is the argument \<open>wild\<close> of the
  model.
\<close>

definition engine_seed :: "64 word \<Rightarrow> 64 word \<Rightarrow> 64 word" where
  "engine_seed wild seed =
     (if sint seed + 12345 \<le> 9223372036854775807 then seed + 12345 else wild)"

text \<open>
  Lines 25--28: the digits of \<open>A\<close>. The character pushed is \<^verbatim>\<open>'0' + d\<close>, that is the
  byte \<open>48 + d\<close>.
\<close>

function digits_A ::
  "'g random_source \<Rightarrow> int \<Rightarrow> int \<Rightarrow> 'g \<Rightarrow> string \<Rightarrow> error + (string \<times> 'g)" where
  "digits_A R alen i g sa =
     (if i < alen then
        (let lower = (if alen \<noteq> 1 \<and> i = 0 then 1 else 0) in
         case uniform R lower 9 g of
           Inl e \<Rightarrow> Inl e
         | Inr (d, g') \<Rightarrow> digits_A R alen (i + 1) g' (sa @ [char_of (48 + d)]))
      else Inr (sa, g))"
  by pat_completeness auto
termination
  by (relation "measure (\<lambda>(R, alen, i, g, sa). nat (alen - i))") simp_all

text \<open>Lines 29--32: the digits of \<open>B\<close>.\<close>

function digits_B ::
  "'g random_source \<Rightarrow> int \<Rightarrow> int \<Rightarrow> 'g \<Rightarrow> string \<Rightarrow> error + (string \<times> 'g)" where
  "digits_B R blen i g sb =
     (if i < blen then
        (let lower = (if i = 0 then 1 else 0) in
         case uniform R lower 9 g of
           Inl e \<Rightarrow> Inl e
         | Inr (d, g') \<Rightarrow> digits_B R blen (i + 1) g' (sb @ [char_of (48 + d)]))
      else Inr (sb, g))"
  by pat_completeness auto
termination
  by (relation "measure (\<lambda>(R, blen, i, g, sb). nat (blen - i))") simp_all

text \<open>
  Lines 17--32, the part of the loop body that builds one candidate pair: two lengths,
  the swap that is made unless \<open>uniform(0, 9)\<close> returns zero, and the two strings.
\<close>

definition candidate ::
  "'g random_source \<Rightarrow> int \<Rightarrow> 'g \<Rightarrow> error + ((string \<times> string) \<times> 'g)" where
  "candidate R upper g =
     (case uniform R 1 upper g of
        Inl e \<Rightarrow> Inl e
      | Inr (alen0, g1) \<Rightarrow>
          (case uniform R 1 upper g1 of
             Inl e \<Rightarrow> Inl e
           | Inr (blen0, g2) \<Rightarrow>
               (case uniform R 0 9 g2 of
                  Inl e \<Rightarrow> Inl e
                | Inr (c, g3) \<Rightarrow>
                    (case (if c \<noteq> 0 \<and> alen0 < blen0 then (blen0, alen0) else (alen0, blen0)) of
                       (alen, blen) \<Rightarrow>
                         (case digits_A R alen 0 g3 [] of
                            Inl e \<Rightarrow> Inl e
                          | Inr (sa, g4) \<Rightarrow>
                              (case digits_B R blen 0 g4 [] of
                                 Inl e \<Rightarrow> Inl e
                               | Inr (sb, g5) \<Rightarrow> Inr ((sa, sb), g5)))))))"

text \<open>
  Lines 16--37, the \<^verbatim>\<open>while (true)\<close> loop with the limit constant
  \<open>SUM_OF_CHARACTER_LENGTH\<close> as the argument \<open>S\<close>. Nothing in the loop itself bounds the
  number of iterations, so the result is an option and \<open>None\<close> stands for a loop that
  never ends. Line 33, \<^verbatim>\<open>lsum += sa.size() + sb.size()\<close>, adds in \<open>size_t\<close> and
  converts the sum to the \<open>int\<close> variable \<open>lsum\<close>.
\<close>

partial_function (option) medium_loop ::
  "'g random_source \<Rightarrow> int \<Rightarrow> int \<Rightarrow> 'g \<Rightarrow> int \<Rightarrow> string list \<Rightarrow> string list \<Rightarrow>
     (error + (string list \<times> string list)) option" where
  "medium_loop R upper S g lsum A B =
     (case candidate R upper g of
        Inl e \<Rightarrow> Some (Inl e)
      | Inr ((sa, sb), g') \<Rightarrow>
          (let lsum' = int32 (lsum + int (length sa) + int (length sb)) in
           if lsum' > S then Some (Inr (A, B))
           else medium_loop R upper S g' lsum' (A @ [sa]) (B @ [sb])))"

declare medium_loop.simps [code]

record medium_output =
  count_line :: int
  pair_lines :: "(string \<times> string) list"

text \<open>
  Lines 40--42: one line \<open>A[i] B[i]\<close> for each \<open>i < (int)A.size()\<close>. The index stays
  below \<open>A.size()\<close>, because the conversion does not make a size larger.
\<close>

function print_pairs ::
  "string list \<Rightarrow> string list \<Rightarrow> int \<Rightarrow> (string \<times> string) list \<Rightarrow> (string \<times> string) list" where
  "print_pairs A B i out =
     (if i < int32 (int (length A)) then print_pairs A B (i + 1) (out @ [(A ! nat i, B ! nat i)])
      else out)"
  by pat_completeness auto
termination
  by (relation "measure (\<lambda>(A, B, i, out). nat (int32 (int (length A)) - i))") simp_all

text \<open>
  \<open>main\<close> of \<^verbatim>\<open>medium.cpp\<close>. The engine is seeded with \<open>seed + 12345\<close>, or with the
  wild value when this sum overflows; \<open>upper\<close> is the tier of the seed, or the stray
  \<open>int\<close> when the read is out of range; line 39 prints \<open>(int)A.size()\<close>.
\<close>

definition medium_main ::
  "'g random_source \<Rightarrow> int \<Rightarrow> 64 word \<Rightarrow> int \<Rightarrow> 64 word \<Rightarrow>
     (error + medium_output) option" where
  "medium_main R stray wild S seed =
     (let g0 = construct R (engine_seed wild seed); upper = read_upper stray seed in
      case medium_loop R upper S g0 0 [] [] of
        None \<Rightarrow> None
      | Some (Inl e) \<Rightarrow> Some (Inl e)
      | Some (Inr (A, B)) \<Rightarrow>
          Some (Inr \<lparr> count_line = int32 (int (length A)),
                      pair_lines = print_pairs A B 0 [] \<rparr>))"

text \<open>
  The defining equations of the loops are recursive without a guard on the left, so
  they are unfolded by hand.
\<close>

declare vertex_values.simps [simp del] path_edges.simps [simp del] relabel.simps [simp del]
  print_edges.simps [simp del] queries.simps [simp del] digits_A.simps [simp del]
  digits_B.simps [simp del] print_pairs.simps [simp del]

subsection \<open>Trees given by edge lists, and un-permuting\<close>

text \<open>
  The vocabulary of the tree property. \<open>linked es a b\<close>: there is a walk from \<open>a\<close> to
  \<open>b\<close> along the edges of the list \<open>es\<close>, each used in either direction.
\<close>

inductive linked :: "(int \<times> int) list \<Rightarrow> int \<Rightarrow> int \<Rightarrow> bool" for es :: "(int \<times> int) list" where
  here: "linked es a a"
| step: "linked es a b \<Longrightarrow> (b, c) \<in> set es \<or> (c, b) \<in> set es \<Longrightarrow> linked es a c"

definition without :: "nat \<Rightarrow> 'a list \<Rightarrow> 'a list" where
  "without i xs = take i xs @ drop (Suc i) xs"

text \<open>
  An edge list is a tree on the vertices \<open>0, \<dots>, N - 1\<close> if it has \<open>N - 1\<close> edges
  between these vertices, any two of the vertices are linked, and there is no cycle. A
  graph has no cycle exactly if no edge closes one, that is, if the ends of each edge
  are not linked by the other edges; the edge at position \<open>i\<close> is removed by position,
  so that a repeated edge counts as a cycle, and so does a loop.
\<close>

definition is_tree :: "int \<Rightarrow> (int \<times> int) list \<Rightarrow> bool" where
  "is_tree N es \<longleftrightarrow>
     int (length es) = N - 1 \<and>
     (\<forall>(a, b) \<in> set es. 0 \<le> a \<and> a < N \<and> 0 \<le> b \<and> b < N) \<and>
     (\<forall>a \<in> {0..<N}. \<forall>b \<in> {0..<N}. linked es a b) \<and>
     (\<forall>i < length es. \<not> linked (without i es) (fst (es ! i)) (snd (es ! i)))"

text \<open>
  The inverse of a permutation \<open>p\<close> given as a sequence: the position at which a value
  occurs first.
\<close>

definition inverse_perm :: "int list \<Rightarrow> int \<Rightarrow> int" where
  "inverse_perm p a = int (length (takeWhile (\<lambda>x. x \<noteq> a) p))"

subsection \<open>Sequences of candidate pairs\<close>

text \<open>
  The vocabulary of the budget property. \<open>total_length ps\<close> is the number of characters
  of the pairs \<open>ps\<close>. \<open>candidates R upper g cs g'\<close>: the pairs \<open>cs\<close> are the candidates
  that the loop body builds one after the other, starting with the engine in state \<open>g\<close>
  and leaving it in state \<open>g'\<close>.
\<close>

definition total_length :: "(string \<times> string) list \<Rightarrow> int" where
  "total_length ps = (\<Sum>(a, b) \<leftarrow> ps. int (length a) + int (length b))"

inductive candidates ::
  "'g random_source \<Rightarrow> int \<Rightarrow> 'g \<Rightarrow> (string \<times> string) list \<Rightarrow> 'g \<Rightarrow> bool"
  for R :: "'g random_source" and upper :: int where
  none: "candidates R upper g [] g"
| more: "candidate R upper g = Inr (c, g1) \<Longrightarrow> candidates R upper g1 cs g2 \<Longrightarrow>
     candidates R upper g (c # cs) g2"

subsection \<open>Random sources that make the same draws\<close>

text \<open>
  The vocabulary of determinism. A run constructs its own random source from the seed.
  Two random sources, whose states may even be of different types, make the same draws
  if their states can be related in such a way that the states constructed from one
  seed are related, and that on related states the same call returns the same value and
  related states again. Because the operations of a random source are functions of its
  state, every random source makes the same draws as itself (take equality as the
  relation): this is the determinism that the contract of the Random Source asks for.
\<close>

definition same_draws ::
  "'g random_source \<Rightarrow> 'h random_source \<Rightarrow> ('g \<Rightarrow> 'h \<Rightarrow> bool) \<Rightarrow> bool" where
  "same_draws R1 R2 rel \<longleftrightarrow>
     (\<forall>seed. rel (construct R1 seed) (construct R2 seed)) \<and>
     (\<forall>lo hi g h. rel g h \<longrightarrow>
        fst (draw R1 lo hi g) = fst (draw R2 lo hi h) \<and>
        rel (snd (draw R1 lo hi g)) (snd (draw R2 lo hi h))) \<and>
     (\<forall>n g h. rel g h \<longrightarrow>
        fst (draw_perm R1 n g) = fst (draw_perm R2 n h) \<and>
        rel (snd (draw_perm R1 n g)) (snd (draw_perm R2 n h)))"

text \<open>
  A second concrete random source for the examples: the counter source again, with the
  counter kept as an integer.
\<close>

definition int_counter_source :: "int random_source" where
  "int_counter_source =
     \<lparr> construct = uint,
       draw = (\<lambda>lo hi g. (lo + g mod (hi - lo + 1), g + 1)),
       draw_perm = (\<lambda>n g. (map int (rotate (nat g) [0..<n]), g + 1)) \<rparr>"

text \<open>
  A third concrete random source: it has no state, and every draw returns the value \<open>v\<close>
  moved into the range.
\<close>

definition constant_source :: "int \<Rightarrow> unit random_source" where
  "constant_source v =
     \<lparr> construct = (\<lambda>seed. ()),
       draw = (\<lambda>lo hi g. (max lo (min hi v), g)),
       draw_perm = (\<lambda>n g. (map int [0..<n], g)) \<rparr>"

section \<open>Properties\<close>

subsection \<open>The random source\<close>

lemma uniform_Inr:
  "uniform R lo hi g = Inr r \<longleftrightarrow> lo \<le> hi \<and> r = draw R lo hi g"
  by (auto simp: uniform_def)

lemma uniform_Inl:
  "uniform R lo hi g = Inl e \<longleftrightarrow> hi < lo \<and> e = InvalidRangeError"
  by (auto simp: uniform_def)

lemma uniform_range:
  "random_source_ok R \<Longrightarrow> uniform R lo hi g = Inr (x, g') \<Longrightarrow> lo \<le> x \<and> x \<le> hi"
proof -
  assume ok: "random_source_ok R" and u: "uniform R lo hi g = Inr (x, g')"
  from u have le: "lo \<le> hi" and x: "x = fst (draw R lo hi g)"
    by (auto simp: uniform_def split: if_splits)
  from ok le have "lo \<le> fst (draw R lo hi g) \<and> fst (draw R lo hi g) \<le> hi"
    unfolding random_source_ok_def by blast
  with x show ?thesis by simp
qed

subsection \<open>The loops of the Tree-Query Generator\<close>

lemma vertex_values_result:
  "vertex_values R n X i g out = Inr (res, g') \<Longrightarrow>
     \<exists>vals. res = out @ vals \<and> int (length vals) = max 0 (n - i) \<and>
       (random_source_ok R \<longrightarrow> (\<forall>a \<in> set vals. 0 \<le> a \<and> a \<le> X))"
proof (induction R n X i g out rule: vertex_values.induct)
  case (1 R n X i g out)
  show ?case
  proof (cases "i < n")
    case False
    with "1.prems" show ?thesis by (simp add: vertex_values.simps)
  next
    case True
    from True "1.prems" obtain a g1 where
      u: "uniform R 0 X g = Inr (a, g1)" and
      rest: "vertex_values R n X (i + 1) g1 (out @ [a]) = Inr (res, g')"
      by (subst (asm) vertex_values.simps) (auto split: sum.splits)
    from "1.IH" [OF True u refl rest] obtain vals where
      vals: "res = (out @ [a]) @ vals" "int (length vals) = max 0 (n - (i + 1))"
        "random_source_ok R \<longrightarrow> (\<forall>a \<in> set vals. 0 \<le> a \<and> a \<le> X)"
      by blast
    have "random_source_ok R \<longrightarrow> 0 \<le> a \<and> a \<le> X"
      using uniform_range [OF _ u] by blast
    with vals True show ?thesis
      by (intro exI [of _ "a # vals"]) auto
  qed
qed

lemma vertex_values_error:
  "vertex_values R n X i g out = Inl e \<Longrightarrow> e = InvalidRangeError \<and> X < 0"
proof (induction R n X i g out rule: vertex_values.induct)
  case (1 R n X i g out)
  then show ?case
    by (subst (asm) (2) vertex_values.simps) (auto split: if_splits sum.splits simp: uniform_Inl)
qed

lemma path_edges_result:
  "path_edges n i u v = (u', v') \<Longrightarrow> 0 \<le> i \<Longrightarrow>
     length u' = length u \<and> length v' = length v \<and>
     (\<forall>k < length u. u' ! k = (if nat i \<le> k \<and> int k < n - 1 then int k else u ! k)) \<and>
     (\<forall>k < length v. v' ! k = (if nat i \<le> k \<and> int k < n - 1 then int k + 1 else v ! k))"
proof (induction n i u v rule: path_edges.induct)
  case (1 n i u v)
  show ?case
  proof (cases "i < n - 1")
    case False
    with "1.prems" show ?thesis
      by (subst (asm) path_edges.simps) auto
  next
    case True
    with "1.prems" have rest:
      "path_edges n (i + 1) (u[nat i := i]) (v[nat i := i + 1]) = (u', v')"
      by (subst (asm) path_edges.simps) simp
    from "1.prems" have i1: "0 \<le> i + 1" by simp
    note IH = "1.IH" [OF True rest i1]
    have nat_eq: "nat (i + 1) = Suc (nat i)"
      using "1.prems" by simp
    show ?thesis
    proof (intro conjI allI impI)
      show "length u' = length u" using IH by simp
      show "length v' = length v" using IH by simp
    next
      fix k assume k: "k < length u"
      with IH have "u' ! k = (if nat (i + 1) \<le> k \<and> int k < n - 1 then int k else u[nat i := i] ! k)"
        by simp
      then show "u' ! k = (if nat i \<le> k \<and> int k < n - 1 then int k else u ! k)"
        using k True "1.prems" by (auto simp: nat_eq nth_list_update)
    next
      fix k assume k: "k < length v"
      with IH have "v' ! k = (if nat (i + 1) \<le> k \<and> int k < n - 1 then int k + 1 else v[nat i := i + 1] ! k)"
        by simp
      then show "v' ! k = (if nat i \<le> k \<and> int k < n - 1 then int k + 1 else v ! k)"
        using k True "1.prems" by (auto simp: nat_eq nth_list_update)
    qed
  qed
qed

lemma at_Inr: "at xs i = Inr x \<longleftrightarrow> 0 \<le> i \<and> i < int (length xs) \<and> x = xs ! nat i"
  by (auto simp: at_def)


lemma relabel_result:
  "relabel perm n i u v = Inr (u', v') \<Longrightarrow> 0 \<le> i \<Longrightarrow>
     length u' = length u \<and> length v' = length v \<and>
     (\<forall>k < length u. u' ! k = (if nat i \<le> k \<and> int k < n - 1 then perm ! nat (u ! k) else u ! k)) \<and>
     (\<forall>k < length v. v' ! k = (if nat i \<le> k \<and> int k < n - 1 then perm ! nat (v ! k) else v ! k))"
proof (induction perm n i u v rule: relabel.induct)
  case (1 perm n i u v)
  show ?case
  proof (cases "i < n - 1")
    case False
    with "1.prems" show ?thesis
      by (subst (asm) relabel.simps) auto
  next
    case True
    with "1.prems" obtain pu pv where
      pu: "at perm (u ! nat i) = Inr pu" and pv: "at perm (v ! nat i) = Inr pv" and
      rest: "relabel perm n (i + 1) (u[nat i := pu]) (v[nat i := pv]) = Inr (u', v')"
      by (subst (asm) relabel.simps) (auto split: sum.splits)
    from "1.prems" have i1: "0 \<le> i + 1" by simp
    note IH = "1.IH" [OF True pu pv rest i1]
    have nat_eq: "nat (i + 1) = Suc (nat i)"
      using "1.prems" by simp
    have pu': "pu = perm ! nat (u ! nat i)" and pv': "pv = perm ! nat (v ! nat i)"
      using pu pv by (simp_all add: at_Inr)
    show ?thesis
    proof (intro conjI allI impI)
      show "length u' = length u" using IH by simp
      show "length v' = length v" using IH by simp
    next
      fix k assume k: "k < length u"
      with IH have "u' ! k = (if nat (i + 1) \<le> k \<and> int k < n - 1 then perm ! nat (u[nat i := pu] ! k)
          else u[nat i := pu] ! k)"
        by simp
      then show "u' ! k = (if nat i \<le> k \<and> int k < n - 1 then perm ! nat (u ! k) else u ! k)"
        using k True "1.prems" pu' by (cases "k = nat i") (auto simp: nat_eq nth_list_update)
    next
      fix k assume k: "k < length v"
      with IH have "v' ! k = (if nat (i + 1) \<le> k \<and> int k < n - 1 then perm ! nat (v[nat i := pv] ! k)
          else v[nat i := pv] ! k)"
        by simp
      then show "v' ! k = (if nat i \<le> k \<and> int k < n - 1 then perm ! nat (v ! k) else v ! k)"
        using k True "1.prems" pv' by (cases "k = nat i") (auto simp: nat_eq nth_list_update)
    qed
  qed
qed

lemma relabel_total:
  "0 \<le> i \<Longrightarrow> int (length u) = n - 1 \<Longrightarrow> int (length v) = n - 1 \<Longrightarrow>
   (\<forall>k. nat i \<le> k \<and> k < length u \<longrightarrow> 0 \<le> u ! k \<and> u ! k < int (length perm) \<and>
        0 \<le> v ! k \<and> v ! k < int (length perm)) \<Longrightarrow>
   \<exists>r. relabel perm n i u v = Inr r"
proof (induction perm n i u v rule: relabel.induct)
  case (1 perm n i u v)
  show ?case
  proof (cases "i < n - 1")
    case False
    then show ?thesis by (subst relabel.simps) simp
  next
    case True
    with "1.prems" have ki: "nat i < length u" "nat i < length v" by auto
    with "1.prems" have
      pu: "at perm (u ! nat i) = Inr (perm ! nat (u ! nat i))" and
      pv: "at perm (v ! nat i) = Inr (perm ! nat (v ! nat i))"
      by (auto simp: at_Inr)
    have "\<exists>r. relabel perm n (i + 1) (u[nat i := perm ! nat (u ! nat i)])
        (v[nat i := perm ! nat (v ! nat i)]) = Inr r"
    proof (rule "1.IH" [OF True pu pv])
      show "0 \<le> i + 1" using "1.prems" by simp
      show "int (length (u[nat i := perm ! nat (u ! nat i)])) = n - 1" using "1.prems" by simp
      show "int (length (v[nat i := perm ! nat (v ! nat i)])) = n - 1" using "1.prems" by simp
      show "\<forall>k. nat (i + 1) \<le> k \<and> k < length (u[nat i := perm ! nat (u ! nat i)]) \<longrightarrow>
        0 \<le> u[nat i := perm ! nat (u ! nat i)] ! k \<and>
        u[nat i := perm ! nat (u ! nat i)] ! k < int (length perm) \<and>
        0 \<le> v[nat i := perm ! nat (v ! nat i)] ! k \<and>
        v[nat i := perm ! nat (v ! nat i)] ! k < int (length perm)"
        using "1.prems" by (auto simp: nth_list_update)
    qed
    then show ?thesis
      using True pu pv by (subst relabel.simps) simp
  qed
qed


lemma print_edges_result:
  "0 \<le> i \<Longrightarrow> print_edges n i u v out = out @ map (\<lambda>k. (u ! k, v ! k)) [nat i..<nat (n - 1)]"
proof (induction n i u v out rule: print_edges.induct)
  case (1 n i u v out)
  show ?case
  proof (cases "i < n - 1")
    case False
    then show ?thesis by (subst print_edges.simps) simp
  next
    case True
    have nat_eq: "nat (i + 1) = Suc (nat i)"
      using "1.prems" by simp
    from True "1.prems" have "nat i < nat (n - 1)" by simp
    then have upt: "[nat i..<nat (n - 1)] = nat i # [Suc (nat i)..<nat (n - 1)]"
      by (rule upt_conv_Cons)
    from "1.prems" have "0 \<le> i + 1" by simp
    from "1.IH" [OF True this] True show ?thesis
      by (subst print_edges.simps) (simp add: nat_eq upt)
  qed
qed

lemma queries_result:
  "queries R n X q i g out = Inr (res, g') \<Longrightarrow>
     \<exists>qs. res = out @ qs \<and> int (length qs) = max 0 (q - i) \<and>
       (random_source_ok R \<longrightarrow>
          (\<forall>(t, a, b) \<in> set qs.
              0 \<le> a \<and> a < n \<and> (t = 0 \<and> 0 \<le> b \<and> b \<le> X \<or> t = 1 \<and> 0 \<le> b \<and> b < n)))"
proof (induction R n X q i g out rule: queries.induct)
  case (1 R n X q i g out)
  show ?case
  proof (cases "i < q")
    case False
    with "1.prems" show ?thesis by (subst (asm) queries.simps) simp
  next
    case True
    from True "1.prems" obtain t g1 where t: "uniform R 0 1 g = Inr (t, g1)"
      by (subst (asm) queries.simps) (auto split: sum.splits)
    from True "1.prems" t obtain a g2 b g3 where
      a: "uniform R 0 (n - 1) g1 = Inr (a, g2)" and
      b: "uniform R 0 (if t = 0 then X else n - 1) g2 = Inr (b, g3)" and
      rest: "queries R n X q (i + 1) g3 (out @ [(t, a, b)]) = Inr (res, g')"
      by (subst (asm) queries.simps) (auto split: sum.splits if_splits)
    have "\<exists>qs. res = (out @ [(t, a, b)]) @ qs \<and> int (length qs) = max 0 (q - (i + 1)) \<and>
       (random_source_ok R \<longrightarrow>
          (\<forall>(t, a, b) \<in> set qs.
              0 \<le> a \<and> a < n \<and> (t = 0 \<and> 0 \<le> b \<and> b \<le> X \<or> t = 1 \<and> 0 \<le> b \<and> b < n)))"
    proof (cases "t = 0")
      case True
      with b have b': "uniform R 0 X g2 = Inr (b, g3)" by simp
      from rest show ?thesis
        using "1.IH"(1) [OF \<open>i < q\<close> t refl True a refl b' refl] True by simp
    next
      case False
      with b have b': "uniform R 0 (n - 1) g2 = Inr (b, g3)" by simp
      from rest show ?thesis
        using "1.IH"(2) [OF \<open>i < q\<close> t refl False a refl b' refl] False by simp
    qed
    then obtain qs where
      qs: "res = (out @ [(t, a, b)]) @ qs" "int (length qs) = max 0 (q - (i + 1))"
        "random_source_ok R \<longrightarrow>
          (\<forall>(t, a, b) \<in> set qs.
              0 \<le> a \<and> a < n \<and> (t = 0 \<and> 0 \<le> b \<and> b \<le> X \<or> t = 1 \<and> 0 \<le> b \<and> b < n))"
      by blast
    have "random_source_ok R \<longrightarrow>
        0 \<le> a \<and> a < n \<and> (t = 0 \<and> 0 \<le> b \<and> b \<le> X \<or> t = 1 \<and> 0 \<le> b \<and> b < n)"
    proof
      assume ok: "random_source_ok R"
      from uniform_range [OF ok t] have "t = 0 \<or> t = 1" by auto
      moreover from uniform_range [OF ok a] have "0 \<le> a \<and> a < n" by auto
      moreover from uniform_range [OF ok b] have "0 \<le> b \<and> b \<le> (if t = 0 then X else n - 1)" by auto
      ultimately show "0 \<le> a \<and> a < n \<and> (t = 0 \<and> 0 \<le> b \<and> b \<le> X \<or> t = 1 \<and> 0 \<le> b \<and> b < n)"
        by auto
    qed
    with qs True show ?thesis
      by (intro exI [of _ "(t, a, b) # qs"]) auto
  qed
qed

lemma queries_error:
  "queries R n X q i g out = Inl e \<Longrightarrow> e = InvalidRangeError \<and> (X < 0 \<or> n < 1)"
proof (induction R n X q i g out rule: queries.induct)
  case (1 R n X q i g out)
  then show ?case
    by (subst (asm) (3) queries.simps) (auto split: if_splits sum.splits simp: uniform_Inl)
qed

subsection \<open>The run of the Tree-Query Generator\<close>

text \<open>
  What a completed run has printed, which errors a run can end in, and that a run
  completes if the random source keeps its contract and the limit constants are valid.
\<close>

lemma is_permutation_length: "is_permutation n p \<Longrightarrow> length p = n"
  by (simp add: is_permutation_def)

lemma random_source_perm:
  "random_source_ok R \<Longrightarrow> draw_perm R n g = (p, g') \<Longrightarrow> is_permutation n p"
  unfolding random_source_ok_def by (metis fst_conv)

lemma vector_int_Inr: "vector_int k = Inr xs \<longleftrightarrow> 0 \<le> k \<and> xs = replicate (nat k) 0"
  by (auto simp: vector_int_def)

lemma line_main_result:
  assumes "line_main R N X seed = Inr out"
  shows "\<exists>g1 g2 p qs g3.
     1 \<le> N \<and>
     vertex_values R N X 0 (construct R seed) [] = Inr (value_line out, g1) \<and>
     draw_perm R (nat N) g1 = (p, g2) \<and>
     queries R N X N 0 g2 [] = Inr (query_lines out, g3) \<and>
     first_line out = (N, N) \<and>
     edge_lines out = map (\<lambda>k. (p ! k, p ! Suc k)) [0..<nat (N - 1)]"
proof -
  from assms obtain vals g1 where
    vals: "vertex_values R N X 0 (construct R seed) [] = Inr (vals, g1)"
    by (auto simp: line_main_def Let_def split: sum.splits)
  from assms vals obtain u0 where u0: "vector_int (N - 1) = Inr u0"
    by (auto simp: line_main_def Let_def split: sum.splits)
  then have N: "1 \<le> N" and u0': "u0 = replicate (nat (N - 1)) 0"
    by (auto simp: vector_int_Inr)
  obtain u1 v1 where pe: "path_edges N 0 u0 u0 = (u1, v1)"
    by (cases "path_edges N 0 u0 u0")
  obtain p g2 where p: "draw_perm R (nat N) g1 = (p, g2)"
    by (cases "draw_perm R (nat N) g1")
  from assms vals u0 pe p obtain u2 v2 where
    rl: "relabel p N 0 u1 v1 = Inr (u2, v2)"
    by (auto simp: line_main_def Let_def split: sum.splits)
  from assms vals u0 pe p rl obtain qs g3 where
    qs: "queries R N X N 0 g2 [] = Inr (qs, g3)"
    by (auto simp: line_main_def Let_def split: sum.splits)
  from assms vals u0 pe p rl qs have out:
    "out = \<lparr> first_line = (N, N), value_line = vals,
             edge_lines = print_edges N 0 u2 v2 [], query_lines = qs \<rparr>"
    by (simp add: line_main_def Let_def)
  from path_edges_result [OF pe] u0' have
    len1: "length u1 = nat (N - 1)" "length v1 = nat (N - 1)" and
    u1: "\<forall>k < nat (N - 1). u1 ! k = int k" and
    v1: "\<forall>k < nat (N - 1). v1 ! k = int k + 1"
    by auto
  from relabel_result [OF rl] len1 have
    u2: "\<forall>k < nat (N - 1). u2 ! k = p ! nat (u1 ! k)" and
    v2: "\<forall>k < nat (N - 1). v2 ! k = p ! nat (v1 ! k)"
    by auto
  have "map (\<lambda>k. (u2 ! k, v2 ! k)) [0..<nat (N - 1)] = map (\<lambda>k. (p ! k, p ! Suc k)) [0..<nat (N - 1)]"
  proof (rule map_cong [OF refl])
    fix k assume "k \<in> set [0..<nat (N - 1)]"
    then have k: "k < nat (N - 1)" by simp
    have "nat (int k + 1) = Suc k" by simp
    with k u1 v1 u2 v2 show "(u2 ! k, v2 ! k) = (p ! k, p ! Suc k)"
      by simp
  qed
  then have "print_edges N 0 u2 v2 [] = map (\<lambda>k. (p ! k, p ! Suc k)) [0..<nat (N - 1)]"
    by (simp add: print_edges_result)
  with out vals p qs N show ?thesis
    by simp
qed


lemma line_main_total:
  assumes ok: "random_source_ok R" and N: "1 \<le> N" and X: "0 \<le> X"
  shows "\<exists>out. line_main R N X seed = Inr out"
proof -
  obtain vals g1 where
    vals: "vertex_values R N X 0 (construct R seed) [] = Inr (vals, g1)"
    using vertex_values_error [of R N X 0 "construct R seed" "[]"] X
    by (cases "vertex_values R N X 0 (construct R seed) []") auto
  define u0 where "u0 = replicate (nat (N - 1)) (0 :: int)"
  have u0: "vector_int (N - 1) = Inr u0"
    using N by (simp add: vector_int_Inr u0_def)
  obtain u1 v1 where pe: "path_edges N 0 u0 u0 = (u1, v1)"
    by (cases "path_edges N 0 u0 u0")
  obtain p g2 where p: "draw_perm R (nat N) g1 = (p, g2)"
    by (cases "draw_perm R (nat N) g1")
  from random_source_perm [OF ok p] have lenp: "length p = nat N"
    by (rule is_permutation_length)
  from path_edges_result [OF pe] have
    len1: "length u1 = nat (N - 1)" "length v1 = nat (N - 1)" and
    u1: "\<forall>k < nat (N - 1). u1 ! k = int k" and
    v1: "\<forall>k < nat (N - 1). v1 ! k = int k + 1"
    by (auto simp: u0_def)
  have "\<exists>r. relabel p N 0 u1 v1 = Inr r"
  proof (rule relabel_total)
    show "\<forall>k. nat 0 \<le> k \<and> k < length u1 \<longrightarrow>
        0 \<le> u1 ! k \<and> u1 ! k < int (length p) \<and> 0 \<le> v1 ! k \<and> v1 ! k < int (length p)"
      using len1 u1 v1 lenp N by auto
  qed (use len1 N in auto)
  then obtain u2 v2 where rl: "relabel p N 0 u1 v1 = Inr (u2, v2)"
    by auto
  obtain qs g3 where qs: "queries R N X N 0 g2 [] = Inr (qs, g3)"
    using queries_error [of R N X N 0 g2 "[]"] X N
    by (cases "queries R N X N 0 g2 []") auto
  from vals u0 pe p rl qs show ?thesis
    by (simp add: line_main_def Let_def)
qed

subsection \<open>A relabelled path is a tree\<close>

lemma is_permutation_distinct:
  assumes "is_permutation n p"
  shows "distinct p" and "set p = {0..<int n}"
proof -
  from assms have len: "length p = n" and cnt: "\<forall>k \<in> {0..<int n}. count_list p k = 1"
    by (simp_all add: is_permutation_def)
  have sub: "{0..<int n} \<subseteq> set p"
  proof
    fix k assume "k \<in> {0..<int n}"
    with cnt have "count_list p k \<noteq> 0" by simp
    then show "k \<in> set p" by (simp add: count_list_0_iff)
  qed
  have "n = card {0..<int n}" by simp
  also have "\<dots> \<le> card (set p)" using sub by (intro card_mono) simp_all
  finally have ge: "length p \<le> card (set p)" using len by simp
  with card_length [of p] have eq: "card (set p) = length p" by simp
  then show "distinct p" by (rule card_distinct)
  from eq len have "card {0..<int n} = card (set p)" by simp
  with sub show "set p = {0..<int n}"
    by (intro card_subset_eq [symmetric]) simp_all
qed

lemma distinct_nth_in_take:
  assumes "distinct p" "k < length p" "m \<le> length p"
  shows "p ! k \<in> set (take m p) \<longleftrightarrow> k < m"
proof
  assume "p ! k \<in> set (take m p)"
  then obtain j where j: "j < length (take m p)" "take m p ! j = p ! k"
    by (auto simp: in_set_conv_nth)
  then have "j < m" "j < length p" "p ! j = p ! k" by simp_all
  with assms have "j = k" by (simp add: nth_eq_iff_index_eq)
  with \<open>j < m\<close> show "k < m" by simp
next
  assume "k < m"
  with assms have "k < length (take m p)" "take m p ! k = p ! k" by simp_all
  then show "p ! k \<in> set (take m p)" by (metis nth_mem)
qed

lemma inverse_perm_nth:
  "distinct p \<Longrightarrow> k < length p \<Longrightarrow> inverse_perm p (p ! k) = int k"
proof (induction p arbitrary: k)
  case Nil
  then show ?case by simp
next
  case (Cons x p)
  show ?case
  proof (cases k)
    case 0
    then show ?thesis by (simp add: inverse_perm_def)
  next
    case (Suc j)
    with Cons.prems have "j < length p" "distinct p" "p ! j \<noteq> x"
      by auto
    with Cons.IH [of j] Suc show ?thesis
      by (simp add: inverse_perm_def)
  qed
qed

lemma linked_trans: "linked es b c \<Longrightarrow> linked es a b \<Longrightarrow> linked es a c"
  by (induction rule: linked.induct) (auto intro: linked.step)

lemma linked_edge: "(a, b) \<in> set es \<or> (b, a) \<in> set es \<Longrightarrow> linked es a b"
  by (rule linked.step [OF linked.here])

lemma linked_sym: "linked es a b \<Longrightarrow> linked es b a"
proof (induction rule: linked.induct)
  case (here a)
  show ?case by (rule linked.here)
next
  case (step a b c)
  from step.hyps(2) have "linked es c b" by (intro linked_edge) auto
  with step.IH show ?case by (rule linked_trans)
qed

lemma linked_invariant:
  assumes "linked es a b"
    and "\<And>x y. (x, y) \<in> set es \<Longrightarrow> x \<in> S \<longleftrightarrow> y \<in> S"
    and "a \<in> S"
  shows "b \<in> S"
  using assms by (induction rule: linked.induct) auto

lemma without_map: "without i (map f xs) = map f (without i xs)"
  by (simp add: without_def take_map drop_map)

lemma set_without_upt: "i < m \<Longrightarrow> set (without i [0..<m]) = {0..<m} - {i}"
  by (auto simp: without_def)

lemma relabelled_path_linked:
  assumes "j < n" "length p = n"
  shows "linked (map (\<lambda>k. (p ! k, p ! Suc k)) [0..<n - 1]) (p ! 0) (p ! j)"
  using assms(1)
proof (induction j)
  case 0
  show ?case by (rule linked.here)
next
  case (Suc j)
  then have "j < n - 1" by simp
  then have "(p ! j, p ! Suc j) \<in> set (map (\<lambda>k. (p ! k, p ! Suc k)) [0..<n - 1])"
    by (simp add: image_iff) (metis atLeastLessThan_iff zero_le)
  moreover from Suc have "linked (map (\<lambda>k. (p ! k, p ! Suc k)) [0..<n - 1]) (p ! 0) (p ! j)"
    by simp
  ultimately show ?case by (blast intro: linked.step)
qed

lemma relabelled_path_is_tree:
  assumes perm: "is_permutation n p" and n: "1 \<le> n"
  shows "is_tree (int n) (map (\<lambda>k. (p ! k, p ! Suc k)) [0..<n - 1])"
proof -
  let ?es = "map (\<lambda>k. (p ! k, p ! Suc k)) [0..<n - 1]"
  from perm have len: "length p = n" by (simp add: is_permutation_def)
  note dist = is_permutation_distinct(1) [OF perm]
  note setp = is_permutation_distinct(2) [OF perm]
  have count: "int (length ?es) = int n - 1"
    using n by simp
  have range: "\<forall>(a, b) \<in> set ?es. 0 \<le> a \<and> a < int n \<and> 0 \<le> b \<and> b < int n"
  proof clarify
    fix a b assume "(a, b) \<in> set ?es"
    then obtain k where "k < n - 1" "a = p ! k" "b = p ! Suc k" by auto
    with len have "a \<in> set p" "b \<in> set p" by simp_all
    with setp show "0 \<le> a \<and> a < int n \<and> 0 \<le> b \<and> b < int n" by simp
  qed
  have conn: "\<forall>a \<in> {0..<int n}. \<forall>b \<in> {0..<int n}. linked ?es a b"
  proof (intro ballI)
    fix a b assume "a \<in> {0..<int n}" "b \<in> {0..<int n}"
    with setp have "a \<in> set p" "b \<in> set p" by simp_all
    then obtain i j where "i < n" "a = p ! i" "j < n" "b = p ! j"
      using len by (auto simp: in_set_conv_nth)
    with relabelled_path_linked [OF _ len] have "linked ?es (p ! 0) a" "linked ?es (p ! 0) b"
      by simp_all
    then show "linked ?es a b"
      by (blast intro: linked_trans linked_sym)
  qed
  have acyc: "\<forall>i < length ?es. \<not> linked (without i ?es) (fst (?es ! i)) (snd (?es ! i))"
  proof (intro allI impI notI)
    fix i assume "i < length ?es"
    then have i: "i < n - 1" by simp
    assume l: "linked (without i ?es) (fst (?es ! i)) (snd (?es ! i))"
    from i have ends: "fst (?es ! i) = p ! i" "snd (?es ! i) = p ! Suc i" by simp_all
    let ?S = "set (take (Suc i) p)"
    have side: "p ! k \<in> ?S \<longleftrightarrow> k < Suc i" if "k < n" for k
      using that i len by (intro distinct_nth_in_take [OF dist]) simp_all
    have "x \<in> ?S \<longleftrightarrow> y \<in> ?S" if "(x, y) \<in> set (without i ?es)" for x y
    proof -
      from that i have "(x, y) \<in> (\<lambda>k. (p ! k, p ! Suc k)) ` ({0..<n - 1} - {i})"
        by (simp add: without_map set_without_upt)
      then obtain k where "k \<in> {0..<n - 1} - {i}" "(x, y) = (p ! k, p ! Suc k)"
        by (rule imageE)
      then have k: "k < n - 1" "k \<noteq> i" "x = p ! k" "y = p ! Suc k"
        by simp_all
      then have "k < n" "Suc k < n" by simp_all
      with side [of k] side [of "Suc k"] k show ?thesis by auto
    qed
    moreover have "p ! i \<in> ?S"
    proof -
      from i have "i < n" by simp
      then show ?thesis using side [of i] by simp
    qed
    ultimately have "p ! Suc i \<in> ?S"
      using l unfolding ends by (rule linked_invariant [rotated])
    moreover from i have "Suc i < n" by simp
    ultimately show False using side [of "Suc i"] by simp
  qed
  from count range conn acyc show ?thesis
    unfolding is_tree_def by blast
qed

lemma relabelled_path_inverse:
  assumes perm: "is_permutation n p"
  shows "map (\<lambda>(a, b). (inverse_perm p a, inverse_perm p b))
           (map (\<lambda>k. (p ! k, p ! Suc k)) [0..<n - 1]) =
         map (\<lambda>k. (int k, int k + 1)) [0..<n - 1]"
proof -
  from perm have len: "length p = n" by (simp add: is_permutation_def)
  note dist = is_permutation_distinct(1) [OF perm]
  have "(inverse_perm p (p ! k), inverse_perm p (p ! Suc k)) = (int k, int k + 1)"
    if "k \<in> set [0..<n - 1]" for k
  proof -
    from that len have "k < length p" "Suc k < length p" by simp_all
    with dist show ?thesis by (simp add: inverse_perm_nth)
  qed
  then show ?thesis by (simp add: comp_def)
qed

subsection \<open>The counter source, and an example run\<close>

lemma distinct_count_list_one: "distinct xs \<Longrightarrow> x \<in> set xs \<Longrightarrow> count_list xs x = 1"
  by (induction xs) auto

lemma counter_source_ok: "random_source_ok counter_source"
proof -
  have "lo \<le> lo + int g mod (hi - lo + 1) \<and> lo + int g mod (hi - lo + 1) \<le> hi"
    if "lo \<le> hi" for lo hi :: int and g :: nat
  proof -
    from that have "0 < hi - lo + 1" by simp
    then have "0 \<le> int g mod (hi - lo + 1)" and "int g mod (hi - lo + 1) < hi - lo + 1"
      by (rule pos_mod_sign, rule pos_mod_bound)
    then show ?thesis by linarith
  qed
  moreover have "is_permutation n (map int (rotate g [0..<n]))" for n g
  proof -
    have "distinct (map int (rotate g [0..<n]))"
      by (simp add: distinct_map)
    moreover have "k \<in> set (map int (rotate g [0..<n]))" if "k \<in> {0..<int n}" for k
    proof -
      from that have "k = int (nat k)" "nat k \<in> {0..<n}" by auto
      then have "k \<in> int ` {0..<n}" by (rule image_eqI)
      then show ?thesis by simp
    qed
    ultimately show ?thesis
      by (simp add: is_permutation_def distinct_count_list_one del: set_map)
  qed
  ultimately show ?thesis
    by (simp add: random_source_ok_def counter_source_def)
qed

lemma upt_0_3: "[0..<3] = [0, 1, 2]"
  by code_simp

lemma line_main_example: "line_main counter_source 3 5 1 = Inr \<lparr>first_line = (3, 3), value_line = [1, 2, 3],
        edge_lines = [(1, 2), (2, 0)],
        query_lines = [(1, 0, 1), (0, 0, 4), (1, 0, 1)]\<rparr>"
  by (simp add: line_main_def counter_source_def uniform_def vector_int_def at_def
      vertex_values.simps path_edges.simps relabel.simps print_edges.simps queries.simps
      upt_0_3)

lemma upt_0_2: "[0..<2] = [0, 1]"
  by code_simp

lemma line_main_edges:
  assumes ok: "random_source_ok R" and out: "line_main R N X seed = Inr out"
  shows "\<exists>g p g'. draw_perm R (nat N) g = (p, g') \<and> is_permutation (nat N) p \<and>
           edge_lines out = map (\<lambda>k. (p ! k, p ! Suc k)) [0..<nat N - 1]"
proof -
  from line_main_result [OF out] obtain g1 g2 p where
    p: "draw_perm R (nat N) g1 = (p, g2)" and
    es: "edge_lines out = map (\<lambda>k. (p ! k, p ! Suc k)) [0..<nat (N - 1)]"
    by auto
  have "nat (N - 1) = nat N - 1" by simp
  with es p random_source_perm [OF ok p] show ?thesis by auto
qed

subsection \<open>The edges printed by the Tree-Query Generator\<close>

text \<open>
  Claim C1: for every seed and every \<open>N_AND_Q_MAX \<ge> 1\<close>, the edge lines that the
  Tree-Query Generator prints form a tree on the vertices \<open>0, \<dots>, N - 1\<close> (\<open>N - 1\<close>
  edges, connected, without a cycle), and the inverse of the permutation that was drawn,
  applied to both ends of every edge line, gives back the path: the edge line at
  position \<open>i\<close> becomes \<open>(i, i + 1)\<close>.
\<close>

theorem line_edges_are_relabelled_path:
  assumes "random_source_ok R" and "1 \<le> N" and "line_main R N X seed = Inr out"
  shows "is_tree N (edge_lines out) \<and>
    (\<exists>g p g'. draw_perm R (nat N) g = (p, g') \<and>
       map (\<lambda>(a, b). (inverse_perm p a, inverse_perm p b)) (edge_lines out) =
       map (\<lambda>i. (int i, int i + 1)) [0..<nat N - 1])"
proof -
  from line_main_edges [OF assms(1) assms(3)] obtain g p g' where
    p: "draw_perm R (nat N) g = (p, g')" and perm: "is_permutation (nat N) p" and
    es: "edge_lines out = map (\<lambda>k. (p ! k, p ! Suc k)) [0..<nat N - 1]"
    by blast
  from assms(2) have "1 \<le> nat N" "int (nat N) = N" by simp_all
  with relabelled_path_is_tree [OF perm] es have "is_tree N (edge_lines out)"
    by simp
  moreover from relabelled_path_inverse [OF perm] es have
    "map (\<lambda>(a, b). (inverse_perm p a, inverse_perm p b)) (edge_lines out) =
     map (\<lambda>i. (int i, int i + 1)) [0..<nat N - 1]"
    by simp
  ultimately show ?thesis using p by blast
qed

theorem line_edges_are_relabelled_path_witness:
  "random_source_ok counter_source \<and> (1 :: int) \<le> 3 \<and>
   line_main counter_source 3 5 1 =
     Inr \<lparr>first_line = (3, 3), value_line = [1, 2, 3], edge_lines = [(1, 2), (2, 0)],
          query_lines = [(1, 0, 1), (0, 0, 4), (1, 0, 1)]\<rparr> \<and>
   is_tree 3 [(1, 2), (2, 0)] \<and>
   (\<exists>g p g'. draw_perm counter_source 3 g = (p, g') \<and>
      map (\<lambda>(a, b). (inverse_perm p a, inverse_perm p b)) [(1, 2), (2, 0)] = [(0, 1), (1, 2)])"
  using line_edges_are_relabelled_path [OF counter_source_ok _ line_main_example]
    counter_source_ok line_main_example
  by (simp add: upt_0_2)

subsection \<open>The ranges of the printed values and indices\<close>

text \<open>
  Claim C8: for every seed and \<open>N_AND_Q_MAX \<ge> 1\<close>, every vertex value and every update
  value \<open>x\<close> that the Tree-Query Generator prints lies in \<open>[0, A_AND_X_MAX]\<close>, and every
  vertex index in an edge line, in an update (\<open>p\<close>) or in a path query (\<open>u\<close>, \<open>v\<close>) lies
  in \<open>[0, N)\<close>. A query line is \<open>(0, p, x)\<close> or \<open>(1, u, v)\<close>.
\<close>

theorem line_values_and_indices_in_range:
  assumes "random_source_ok R" and "1 \<le> N" and "line_main R N X seed = Inr out"
  shows "(\<forall>a \<in> set (value_line out). 0 \<le> a \<and> a \<le> X) \<and>
    (\<forall>(u, v) \<in> set (edge_lines out). 0 \<le> u \<and> u < N \<and> 0 \<le> v \<and> v < N) \<and>
    (\<forall>(t, a, b) \<in> set (query_lines out).
       0 \<le> a \<and> a < N \<and> (t = 0 \<and> 0 \<le> b \<and> b \<le> X \<or> t = 1 \<and> 0 \<le> b \<and> b < N))"
proof -
  from line_main_result [OF assms(3)] obtain g1 g2 g3 where
    vals: "vertex_values R N X 0 (construct R seed) [] = Inr (value_line out, g1)" and
    qs: "queries R N X N 0 g2 [] = Inr (query_lines out, g3)"
    by auto
  from vertex_values_result [OF vals] assms(1) have
    "\<forall>a \<in> set (value_line out). 0 \<le> a \<and> a \<le> X"
    by auto
  moreover from queries_result [OF qs] assms(1) have
    "\<forall>(t, a, b) \<in> set (query_lines out).
       0 \<le> a \<and> a < N \<and> (t = 0 \<and> 0 \<le> b \<and> b \<le> X \<or> t = 1 \<and> 0 \<le> b \<and> b < N)"
    by auto
  moreover have "\<forall>(u, v) \<in> set (edge_lines out). 0 \<le> u \<and> u < N \<and> 0 \<le> v \<and> v < N"
  proof -
    from line_main_edges [OF assms(1) assms(3)] obtain p where
      perm: "is_permutation (nat N) p" and
      es: "edge_lines out = map (\<lambda>k. (p ! k, p ! Suc k)) [0..<nat N - 1]"
      by blast
    from assms(2) have "1 \<le> nat N" "int (nat N) = N" by simp_all
    with relabelled_path_is_tree [OF perm] es have "is_tree N (edge_lines out)"
      by simp
    then show ?thesis by (simp add: is_tree_def)
  qed
  ultimately show ?thesis by blast
qed

theorem line_values_and_indices_in_range_witness:
  "random_source_ok counter_source \<and> (1 :: int) \<le> 3 \<and>
   line_main counter_source 3 5 1 =
     Inr \<lparr>first_line = (3, 3), value_line = [1, 2, 3], edge_lines = [(1, 2), (2, 0)],
          query_lines = [(1, 0, 1), (0, 0, 4), (1, 0, 1)]\<rparr> \<and>
   list_all (\<lambda>a. 0 \<le> a \<and> a \<le> 5) [1, 2, 3 :: int] \<and>
   list_all (\<lambda>(u, v). 0 \<le> u \<and> u < 3 \<and> 0 \<le> v \<and> v < 3) ([(1, 2), (2, 0)] :: (int \<times> int) list) \<and>
   list_all (\<lambda>(t, a, b). 0 \<le> a \<and> a < 3 \<and> (t = 0 \<and> 0 \<le> b \<and> b \<le> 5 \<or> t = 1 \<and> 0 \<le> b \<and> b < 3))
     ([(1, 0, 1), (0, 0, 4), (1, 0, 1)] :: (int \<times> int \<times> int) list)"
  using line_values_and_indices_in_range [OF counter_source_ok _ line_main_example]
    counter_source_ok line_main_example
  by simp

subsection \<open>32-bit integers\<close>


lemma int32_id: "- 2147483648 \<le> k \<Longrightarrow> k \<le> 2147483647 \<Longrightarrow> int32 k = k"
  by (simp add: int32_def)


lemma int32_ge: "- 2147483648 \<le> int32 k"
proof -
  have "0 \<le> (k + 2147483648) mod 4294967296"
    by (rule pos_mod_sign) simp
  then show ?thesis by (simp add: int32_def)
qed

lemma int32_le_self: "0 \<le> k \<Longrightarrow> int32 k \<le> k"
proof -
  assume "0 \<le> k"
  then have "(k + 2147483648) mod 4294967296 \<le> k + 2147483648"
    by (intro zmod_le_nonneg_dividend) simp
  then show ?thesis by (simp add: int32_def)
qed

subsection \<open>The loops of the Bounded-Digit-Pair Generator\<close>

lemma digit_char_zero:
  fixes d :: int
  assumes "0 \<le> d" "d \<le> 9"
  shows "char_of (48 + d) = CHR ''0'' \<longleftrightarrow> d = 0"
proof -
  from assms have "(48 + d) mod 256 = 48 + d" by simp
  then show ?thesis
    by (simp add: char_of_eq_iff take_bit_eq_mod)
qed

lemma digits_A_result:
  "digits_A R alen i g sa = Inr (res, g') \<Longrightarrow>
     \<exists>ds. res = sa @ ds \<and> int (length ds) = max 0 (alen - i) \<and>
       (random_source_ok R \<longrightarrow> i = 0 \<longrightarrow> alen \<noteq> 1 \<longrightarrow> ds \<noteq> [] \<longrightarrow> hd ds \<noteq> CHR ''0'')"
proof (induction R alen i g sa rule: digits_A.induct)
  case (1 R alen i g sa)
  show ?case
  proof (cases "i < alen")
    case False
    with "1.prems" show ?thesis by (subst (asm) digits_A.simps) simp
  next
    case True
    define lower :: int where "lower = (if alen \<noteq> 1 \<and> i = 0 then 1 else 0)"
    from True "1.prems" obtain d g1 where
      d: "uniform R lower 9 g = Inr (d, g1)" and
      rest: "digits_A R alen (i + 1) g1 (sa @ [char_of (48 + d)]) = Inr (res, g')"
      by (subst (asm) digits_A.simps) (auto simp: lower_def split: sum.splits)
    from "1.IH" [OF True lower_def d refl rest] obtain ds where
      ds: "res = (sa @ [char_of (48 + d)]) @ ds" "int (length ds) = max 0 (alen - (i + 1))"
      by blast
    have "random_source_ok R \<longrightarrow> i = 0 \<longrightarrow> alen \<noteq> 1 \<longrightarrow> char_of (48 + d) \<noteq> CHR ''0''"
    proof (intro impI)
      assume ok: "random_source_ok R" and "i = 0" "alen \<noteq> 1"
      then have "lower = 1" by (simp add: lower_def)
      with uniform_range [OF ok d] have "1 \<le> d" "d \<le> 9" by simp_all
      then show "char_of (48 + d) \<noteq> CHR ''0''" by (simp add: digit_char_zero)
    qed
    with ds True show ?thesis
      by (intro exI [of _ "char_of (48 + d) # ds"]) auto
  qed
qed

lemma digits_B_result:
  "digits_B R blen i g sb = Inr (res, g') \<Longrightarrow>
     \<exists>ds. res = sb @ ds \<and> int (length ds) = max 0 (blen - i) \<and>
       (random_source_ok R \<longrightarrow> i = 0 \<longrightarrow> ds \<noteq> [] \<longrightarrow> hd ds \<noteq> CHR ''0'')"
proof (induction R blen i g sb rule: digits_B.induct)
  case (1 R blen i g sb)
  show ?case
  proof (cases "i < blen")
    case False
    with "1.prems" show ?thesis by (subst (asm) digits_B.simps) simp
  next
    case True
    define lower :: int where "lower = (if i = 0 then 1 else 0)"
    from True "1.prems" obtain d g1 where
      d: "uniform R lower 9 g = Inr (d, g1)" and
      rest: "digits_B R blen (i + 1) g1 (sb @ [char_of (48 + d)]) = Inr (res, g')"
      by (subst (asm) digits_B.simps) (auto simp: lower_def split: sum.splits)
    from "1.IH" [OF True lower_def d refl rest] obtain ds where
      ds: "res = (sb @ [char_of (48 + d)]) @ ds" "int (length ds) = max 0 (blen - (i + 1))"
      by blast
    have "random_source_ok R \<longrightarrow> i = 0 \<longrightarrow> char_of (48 + d) \<noteq> CHR ''0''"
    proof (intro impI)
      assume ok: "random_source_ok R" and "i = 0"
      then have "lower = 1" by (simp add: lower_def)
      with uniform_range [OF ok d] have "1 \<le> d" "d \<le> 9" by simp_all
      then show "char_of (48 + d) \<noteq> CHR ''0''" by (simp add: digit_char_zero)
    qed
    with ds True show ?thesis
      by (intro exI [of _ "char_of (48 + d) # ds"]) auto
  qed
qed

lemma digits_A_no_error: "digits_A R alen i g sa \<noteq> Inl e"
proof (induction R alen i g sa rule: digits_A.induct)
  case (1 R alen i g sa)
  then show ?case
    by (subst digits_A.simps) (auto simp: uniform_Inl Let_def split: sum.splits)
qed

lemma digits_B_no_error: "digits_B R blen i g sb \<noteq> Inl e"
proof (induction R blen i g sb rule: digits_B.induct)
  case (1 R blen i g sb)
  then show ?case
    by (subst digits_B.simps) (auto simp: uniform_Inl Let_def split: sum.splits)
qed

lemma candidate_result:
  assumes ok: "random_source_ok R" and c: "candidate R upper g = Inr ((sa, sb), g')"
  shows "1 \<le> length sa \<and> int (length sa) \<le> upper \<and> 1 \<le> length sb \<and> int (length sb) \<le> upper \<and>
    hd sb \<noteq> CHR ''0'' \<and> (hd sa = CHR ''0'' \<longrightarrow> length sa = 1)"
proof -
  from c obtain alen0 g1 where a0: "uniform R 1 upper g = Inr (alen0, g1)"
    by (auto simp: candidate_def split: sum.splits)
  from c a0 obtain blen0 g2 where b0: "uniform R 1 upper g1 = Inr (blen0, g2)"
    by (auto simp: candidate_def split: sum.splits)
  from c a0 b0 obtain x g3 where x: "uniform R 0 9 g2 = Inr (x, g3)"
    by (auto simp: candidate_def split: sum.splits)
  define alen where "alen = (if x \<noteq> 0 \<and> alen0 < blen0 then blen0 else alen0)"
  define blen where "blen = (if x \<noteq> 0 \<and> alen0 < blen0 then alen0 else blen0)"
  from c a0 b0 x obtain g4 where
    sa: "digits_A R alen 0 g3 [] = Inr (sa, g4)" and
    sb: "digits_B R blen 0 g4 [] = Inr (sb, g')"
    by (auto simp: candidate_def alen_def blen_def split: sum.splits if_splits)
  from uniform_range [OF ok a0] uniform_range [OF ok b0] have
    lens: "1 \<le> alen" "alen \<le> upper" "1 \<le> blen" "blen \<le> upper"
    by (auto simp: alen_def blen_def)
  from digits_A_result [OF sa] ok lens have
    "int (length sa) = alen" "alen \<noteq> 1 \<longrightarrow> sa \<noteq> [] \<longrightarrow> hd sa \<noteq> CHR ''0''"
    by auto
  moreover from digits_B_result [OF sb] ok lens have
    "int (length sb) = blen" "sb \<noteq> [] \<longrightarrow> hd sb \<noteq> CHR ''0''"
    by auto
  ultimately show ?thesis using lens by auto
qed

lemma candidate_error:
  "candidate R upper g = Inl e \<Longrightarrow> e = InvalidRangeError \<and> upper < 1"
  by (auto simp: candidate_def uniform_Inl digits_A_no_error digits_B_no_error
      split: sum.splits if_splits)

lemma candidate_total:
  assumes "1 \<le> upper"
  shows "\<exists>sa sb g'. candidate R upper g = Inr ((sa, sb), g')"
proof (cases "candidate R upper g")
  case (Inl e)
  with candidate_error [of R upper g e] assms show ?thesis by simp
next
  case (Inr r)
  then show ?thesis by (cases r) auto
qed

lemma total_length_Cons:
  "total_length ((sa, sb) # cs) = int (length sa) + int (length sb) + total_length cs"
  by (simp add: total_length_def)

lemma total_length_nonneg: "0 \<le> total_length cs"
  by (induction cs) (auto simp: total_length_def)

lemma medium_loop_result:
  assumes "medium_loop R upper S g lsum A B = Some r"
  shows "(\<forall>e. r = Inl e \<longrightarrow> e = InvalidRangeError \<and> upper < 1) \<and>
    (\<forall>A' B'. r = Inr (A', B') \<longrightarrow>
       (\<exists>cs g1 sa sb g2. A' = A @ map fst cs \<and> B' = B @ map snd cs \<and>
          candidates R upper g cs g1 \<and> candidate R upper g1 = Inr ((sa, sb), g2) \<and>
          (random_source_ok R \<longrightarrow> - 2147483648 \<le> lsum \<longrightarrow> lsum \<le> S \<longrightarrow>
           S + 2 * upper \<le> 2147483647 \<longrightarrow>
             lsum + total_length cs \<le> S \<and>
             S < lsum + total_length cs + int (length sa) + int (length sb))))"
  using assms
proof (induction rule: medium_loop.raw_induct [rotated 1, consumes 1])
  case (1 loop R upper S g lsum A B r)
  show ?case
  proof (cases "candidate R upper g")
    case (Inl e)
    with "1.hyps" candidate_error [OF Inl] show ?thesis by auto
  next
    case (Inr c)
    then obtain sa sb g' where c: "candidate R upper g = Inr ((sa, sb), g')"
      by (cases c) auto
    define len where "len = int (length sa) + int (length sb)"
    define lsum' where "lsum' = int32 (lsum + len)"
    have exact: "lsum' = lsum + len \<and> - 2147483648 \<le> lsum'"
      if "random_source_ok R" "- 2147483648 \<le> lsum" "lsum \<le> S" "S + 2 * upper \<le> 2147483647"
    proof -
      from candidate_result [OF that(1) c] have "0 \<le> len" "len \<le> 2 * upper"
        by (simp_all add: len_def)
      with that have "- 2147483648 \<le> lsum + len" "lsum + len \<le> 2147483647"
        by simp_all
      then show ?thesis by (simp add: lsum'_def int32_id)
    qed
    show ?thesis
    proof (cases "S < lsum'")
      case True
      with "1.hyps" c have r: "r = Inr (A, B)"
        by (simp add: lsum'_def len_def add.assoc)
      have "A = A @ map fst [] \<and> B = B @ map snd [] \<and>
          candidates R upper g [] g \<and> candidate R upper g = Inr ((sa, sb), g') \<and>
          (random_source_ok R \<longrightarrow> - 2147483648 \<le> lsum \<longrightarrow> lsum \<le> S \<longrightarrow>
           S + 2 * upper \<le> 2147483647 \<longrightarrow>
             lsum + total_length [] \<le> S \<and>
             S < lsum + total_length [] + int (length sa) + int (length sb))"
        using c True exact by (auto simp: total_length_def len_def candidates.none)
      with r show ?thesis by blast
    next
      case False
      with "1.hyps" c have rest: "loop R upper S g' lsum' (A @ [sa]) (B @ [sb]) = Some r"
        by (simp add: lsum'_def len_def add.assoc)
      note IH = "1.IH" [OF rest]
      show ?thesis
      proof (intro conjI allI impI)
        fix e assume "r = Inl e"
        with IH show "e = InvalidRangeError" "upper < 1" by simp_all
      next
        fix A' B' assume "r = Inr (A', B')"
        with IH obtain cs g1 ta tb g2 where
          cs: "A' = (A @ [sa]) @ map fst cs" "B' = (B @ [sb]) @ map snd cs"
            "candidates R upper g' cs g1"
            "candidate R upper g1 = Inr ((ta, tb), g2)" and
          budget: "random_source_ok R \<longrightarrow> - 2147483648 \<le> lsum' \<longrightarrow> lsum' \<le> S \<longrightarrow>
            S + 2 * upper \<le> 2147483647 \<longrightarrow>
              lsum' + total_length cs \<le> S \<and>
              S < lsum' + total_length cs + int (length ta) + int (length tb)"
          by blast
        from c cs(3) have chain: "candidates R upper g ((sa, sb) # cs) g1"
          by (rule candidates.more)
        have "random_source_ok R \<longrightarrow> - 2147483648 \<le> lsum \<longrightarrow> lsum \<le> S \<longrightarrow>
           S + 2 * upper \<le> 2147483647 \<longrightarrow>
             lsum + total_length ((sa, sb) # cs) \<le> S \<and>
             S < lsum + total_length ((sa, sb) # cs) + int (length ta) + int (length tb)"
          using exact budget False by (auto simp: total_length_Cons len_def)
        with cs chain have "A' = A @ map fst ((sa, sb) # cs) \<and> B' = B @ map snd ((sa, sb) # cs) \<and>
          candidates R upper g ((sa, sb) # cs) g1 \<and> candidate R upper g1 = Inr ((ta, tb), g2) \<and>
          (random_source_ok R \<longrightarrow> - 2147483648 \<le> lsum \<longrightarrow> lsum \<le> S \<longrightarrow>
           S + 2 * upper \<le> 2147483647 \<longrightarrow>
             lsum + total_length ((sa, sb) # cs) \<le> S \<and>
             S < lsum + total_length ((sa, sb) # cs) + int (length ta) + int (length tb))"
          by simp
        then show "\<exists>cs g1 sa sb g2. A' = A @ map fst cs \<and> B' = B @ map snd cs \<and>
          candidates R upper g cs g1 \<and> candidate R upper g1 = Inr ((sa, sb), g2) \<and>
          (random_source_ok R \<longrightarrow> - 2147483648 \<le> lsum \<longrightarrow> lsum \<le> S \<longrightarrow>
           S + 2 * upper \<le> 2147483647 \<longrightarrow>
             lsum + total_length cs \<le> S \<and>
             S < lsum + total_length cs + int (length sa) + int (length sb))"
          by blast
      qed
    qed
  qed
qed



subsection \<open>The tier of a seed\<close>

text \<open>
  The seeds 0, 1 and 2 select the three tiers. A seed that is not negative selects the
  tier at the index \<open>seed mod 3\<close>; a negative seed that is not a multiple of 3 selects
  none, because its remainder is negative, and \<open>upper\<close> is the stray value then.
\<close>

lemma tier_result: "tier seed = Inr upper \<Longrightarrow> upper \<in> {10, 300, 10000}"
proof -
  assume t: "tier seed = Inr upper"
  define idx where "idx = unat (word_of_int (sint seed smod 3) :: 64 word)"
  from t have "idx < 3" "upper = tiers ! idx"
    by (auto simp: tier_def idx_def tiers_def Let_def split: if_splits)
  then have "idx \<in> {0, 1, 2}" by auto
  with \<open>upper = tiers ! idx\<close> show ?thesis
    by (auto simp: tiers_def)
qed

lemma tier_error: "tier seed = Inl e \<Longrightarrow> e = IndexOutOfRange"
  by (auto simp: tier_def Let_def split: if_splits)

lemma tier_reachable: "tier 0 = Inr 10" "tier 1 = Inr 300" "tier 2 = Inr 10000"
  by (simp_all add: tier_def tiers_def Let_def smod_int_alt_def)

lemma tier_nonnegative_seed:
  assumes "0 \<le> sint seed"
  shows "tier seed = Inr (tiers ! nat (sint seed mod 3))"
proof -
  from assms have "sint seed smod 3 = sint seed mod 3"
    by (cases "sint seed = 0") (simp_all add: smod_int_alt_def)
  moreover have "sint seed mod 3 \<in> {0, 1, 2}"
    by auto
  ultimately show ?thesis
    by (auto simp: tier_def tiers_def Let_def)
qed

lemma tier_negative_seed:
  assumes "sint seed < 0" and "sint seed mod 3 \<noteq> 0"
  shows "tier seed = Inl IndexOutOfRange"
proof -
  have m1: "unat (- 1 :: 64 word) = 18446744073709551615"
    by (simp add: unsigned_minus_1_eq_mask mask_eq_exp_minus_1)
  have m2: "unat (- 2 :: 64 word) = 18446744073709551614"
    by simp
  from assms have "sint seed smod 3 = - ((- sint seed) mod 3)"
    by (simp add: smod_int_alt_def)
  moreover from assms have "(- sint seed) mod 3 \<in> {1, 2}"
    by (simp add: zmod_zminus1_eq_if) presburger
  ultimately have "sint seed smod 3 \<in> {- 1, - 2}"
    by auto
  then show ?thesis
    by (auto simp: tier_def tiers_def Let_def m1 m2)
qed

lemma read_upper_in_range: "tier seed = Inr upper \<Longrightarrow> read_upper stray seed = upper"
  by (simp add: read_upper_def)

lemma read_upper_out_of_range: "tier seed = Inl e \<Longrightarrow> read_upper stray seed = stray"
  by (simp add: read_upper_def)

lemma read_upper_nonnegative_seed:
  assumes "0 \<le> sint seed"
  shows "read_upper stray seed \<in> {10, 300, 10000}"
  using tier_nonnegative_seed [OF assms] tier_result [of seed] by (simp add: read_upper_def)

subsection \<open>The run of the Bounded-Digit-Pair Generator\<close>

lemma print_pairs_result:
  "0 \<le> i \<Longrightarrow>
     print_pairs A B i out = out @ map (\<lambda>k. (A ! k, B ! k)) [nat i..<nat (int32 (int (length A)))]"
proof (induction A B i out rule: print_pairs.induct)
  case (1 A B i out)
  show ?case
  proof (cases "i < int32 (int (length A))")
    case False
    then show ?thesis by (subst print_pairs.simps) simp
  next
    case True
    have nat_eq: "nat (i + 1) = Suc (nat i)"
      using "1.prems" by simp
    from True "1.prems" have "nat i < nat (int32 (int (length A)))" by simp
    then have upt: "[nat i..<nat (int32 (int (length A)))] =
        nat i # [Suc (nat i)..<nat (int32 (int (length A)))]"
      by (rule upt_conv_Cons)
    from "1.prems" have "0 \<le> i + 1" by simp
    from "1.IH" [OF True this] True show ?thesis
      by (subst print_pairs.simps) (simp add: nat_eq upt)
  qed
qed

lemma print_pairs_zip:
  "print_pairs (map fst cs) (map snd cs) 0 [] = take (nat (int32 (int (length cs)))) cs"
proof -
  have le: "nat (int32 (int (length cs))) \<le> length cs"
    using int32_le_self [of "int (length cs)"] by simp
  have "map (\<lambda>k. (map fst cs ! k, map snd cs ! k)) [0..<nat (int32 (int (length cs)))] =
      take (nat (int32 (int (length cs)))) cs"
    using le by (intro nth_equalityI) simp_all
  then show ?thesis by (simp add: print_pairs_result)
qed

lemma candidates_result:
  assumes ok: "random_source_ok R"
  shows "candidates R upper g cs g' \<Longrightarrow>
    \<forall>(a, b) \<in> set cs. 1 \<le> length a \<and> int (length a) \<le> upper \<and> 1 \<le> length b \<and>
       int (length b) \<le> upper \<and> hd b \<noteq> CHR ''0'' \<and> (hd a = CHR ''0'' \<longrightarrow> length a = 1)"
proof (induction rule: candidates.induct)
  case (none g)
  show ?case by simp
next
  case (more g c g1 cs g2)
  obtain a b where "c = (a, b)" by (cases c)
  with candidate_result [OF ok] more show ?case by simp
qed

lemma total_length_lower:
  "\<forall>(a, b) \<in> set cs. 1 \<le> length a \<and> 1 \<le> length b \<Longrightarrow> 2 * int (length cs) \<le> total_length cs"
  by (induction cs) (auto simp: total_length_def)

lemma medium_main_result:
  assumes "medium_main R stray wild S seed = Some (Inr out)"
  shows "\<exists>cs g1 sa sb g2.
     candidates R (read_upper stray seed) (construct R (engine_seed wild seed)) cs g1 \<and>
     candidate R (read_upper stray seed) g1 = Inr ((sa, sb), g2) \<and>
     count_line out = int32 (int (length cs)) \<and>
     pair_lines out = take (nat (int32 (int (length cs)))) cs \<and>
     (random_source_ok R \<longrightarrow> 0 \<le> S \<longrightarrow> S + 2 * read_upper stray seed \<le> 2147483647 \<longrightarrow>
        total_length cs \<le> S \<and> S < total_length cs + int (length sa) + int (length sb) \<and>
        pair_lines out = cs \<and> count_line out = int (length cs))"
proof -
  define upper where "upper = read_upper stray seed"
  define g0 where "g0 = construct R (engine_seed wild seed)"
  from assms obtain A B where
    loop: "medium_loop R upper S g0 0 [] [] = Some (Inr (A, B))" and
    out: "out = \<lparr> count_line = int32 (int (length A)), pair_lines = print_pairs A B 0 [] \<rparr>"
    by (auto simp: medium_main_def Let_def upper_def g0_def split: sum.splits option.splits)
  from medium_loop_result [OF loop] obtain cs g1 sa sb g2 where
    cs: "A = map fst cs" "B = map snd cs" "candidates R upper g0 cs g1"
      "candidate R upper g1 = Inr ((sa, sb), g2)" and
    budget: "random_source_ok R \<longrightarrow> 0 \<le> S \<longrightarrow> S + 2 * upper \<le> 2147483647 \<longrightarrow>
      total_length cs \<le> S \<and> S < total_length cs + int (length sa) + int (length sb)"
    by auto
  from out cs(1,2) have printed:
    "count_line out = int32 (int (length cs))"
    "pair_lines out = take (nat (int32 (int (length cs)))) cs"
    by (simp_all add: print_pairs_zip)
  have "pair_lines out = cs \<and> count_line out = int (length cs)"
    if ok: "random_source_ok R" and S: "0 \<le> S" "S + 2 * upper \<le> 2147483647"
  proof -
    from candidates_result [OF ok cs(3)] have
      "\<forall>(a, b) \<in> set cs. 1 \<le> length a \<and> 1 \<le> length b"
      by fastforce
    from total_length_lower [OF this] have "2 * int (length cs) \<le> total_length cs" .
    moreover from budget that have "total_length cs \<le> S" by simp
    moreover from candidate_result [OF ok cs(4)] have "1 \<le> upper" by simp
    ultimately have "int (length cs) \<le> 2147483647"
      using S by simp
    then have "int32 (int (length cs)) = int (length cs)"
      by (intro int32_id) simp_all
    with printed show ?thesis by simp
  qed
  with cs(3,4) printed budget show ?thesis
    unfolding upper_def g0_def by blast
qed




lemma medium_main_stray_zero:
  assumes "tier seed = Inl e"
  shows "medium_main R 0 wild S seed = Some (Inl InvalidRangeError)"
proof -
  from assms have "read_upper 0 seed = 0"
    by (simp add: read_upper_def)
  moreover have "candidate R 0 g = Inl InvalidRangeError" for g
    by (simp add: candidate_def uniform_def)
  ultimately show ?thesis
    by (simp add: medium_main_def medium_loop.simps [of R 0])
qed

lemma engine_seed_example: "engine_seed wild 0 = 12345" "engine_seed wild (- 1) = 12344"
  by (simp_all add: engine_seed_def)

lemma medium_main_example:
  "medium_main counter_source stray wild 25 0 =
     Some (Inr \<lparr>count_line = 2, pair_lines = [(''1901234'', ''867890''), (''856'', ''28'')]\<rparr>)"
  by (simp add: medium_main_def engine_seed_example read_upper_def tier_def tiers_def
      smod_int_alt_def candidate_def uniform_def counter_source_def digits_A.simps digits_B.simps medium_loop.simps
      print_pairs.simps char_of_eq_iff int32_def)

text \<open>
  A run with the seed \<open>-1\<close>, in which the read of \<open>upper\<close> is out of range and finds
  the word 33.
\<close>

lemma medium_main_stray_example:
  "medium_main counter_source 33 wild 25 (- 1) =
     Some (Inr \<lparr>count_line = 1, pair_lines = [(''9890'', ''423'')]\<rparr>)"
  by (simp add: medium_main_def engine_seed_example read_upper_def tier_negative_seed
      candidate_def uniform_def counter_source_def digits_A.simps digits_B.simps medium_loop.simps
      print_pairs.simps char_of_eq_iff int32_def)

subsection \<open>Runs in which the running total wraps around\<close>

text \<open>
  When the random source builds the same candidate in every iteration, the loop can be
  followed over many iterations at once: as long as the running total neither exceeds
  the budget nor leaves the range of \<open>int\<close>, \<open>j\<close> iterations accept \<open>j\<close> copies of the
  candidate.
\<close>

lemma medium_loop_accept:
  assumes "candidate R upper g = Inr ((sa, sb), g)"
    and "\<not> S < int32 (L + (int (length sa) + int (length sb)))"
  shows "medium_loop R upper S g L (replicate k sa) (replicate k sb) =
    medium_loop R upper S g (int32 (L + (int (length sa) + int (length sb))))
      (replicate (Suc k) sa) (replicate (Suc k) sb)"
  using assms
  by (subst medium_loop.simps) (simp add: add.assoc replicate_append_same)

lemma medium_loop_stop:
  assumes "candidate R upper g = Inr ((sa, sb), g)"
    and "S < int32 (L + (int (length sa) + int (length sb)))"
  shows "medium_loop R upper S g L A B = Some (Inr (A, B))"
  using assms
  by (subst medium_loop.simps) (simp add: add.assoc)

lemma medium_loop_block:
  assumes c: "candidate R upper g = Inr ((sa, sb), g)"
    and len: "len = int (length sa) + int (length sb)"
  shows "- 2147483648 \<le> L \<Longrightarrow> L + len * int j \<le> S \<Longrightarrow> L + len * int j \<le> 2147483647 \<Longrightarrow>
    medium_loop R upper S g L (replicate k sa) (replicate k sb) =
    medium_loop R upper S g (L + len * int j) (replicate (k + j) sa) (replicate (k + j) sb)"
proof (induction j arbitrary: L k)
  case 0
  show ?case by simp
next
  case (Suc j)
  have nn: "0 \<le> len" "0 \<le> len * int j" by (simp_all add: len)
  have eq: "len * int (Suc j) = len + len * int j" by (simp add: algebra_simps)
  from Suc.prems nn have range: "- 2147483648 \<le> L + len" "L + len \<le> 2147483647"
    and S: "L + len \<le> S"
    unfolding eq by linarith+
  then have exact: "int32 (L + len) = L + len"
    by (intro int32_id)
  from Suc.prems have "(L + len) + len * int j \<le> S" "(L + len) + len * int j \<le> 2147483647"
    unfolding eq by linarith+
  from Suc.IH [OF range(1) this, of "Suc k"] have
    "medium_loop R upper S g (L + len) (replicate (Suc k) sa) (replicate (Suc k) sb) =
     medium_loop R upper S g (L + len * int (Suc j)) (replicate (k + Suc j) sa)
       (replicate (k + Suc j) sb)"
    by (simp add: algebra_simps)
  moreover from S exact have "\<not> S < int32 (L + (int (length sa) + int (length sb)))"
    by (simp add: len)
  from medium_loop_accept [OF c this, of k] exact have
    "medium_loop R upper S g L (replicate k sa) (replicate k sb) =
     medium_loop R upper S g (L + len) (replicate (Suc k) sa) (replicate (Suc k) sb)"
    by (simp add: len)
  ultimately show ?case by simp
qed

lemma print_pairs_replicate:
  assumes "int n \<le> 2147483647"
  shows "print_pairs (replicate n a) (replicate n b) 0 [] = replicate n (a, b)"
proof -
  from assms have "int32 (int n) = int n"
    by (intro int32_id) simp_all
  with print_pairs_zip [of "replicate n (a, b)"] show ?thesis
    by simp
qed

lemma total_length_replicate:
  "total_length (replicate n (a, b)) = int n * (int (length a) + int (length b))"
  by (simp add: total_length_def sum_list_replicate)

lemma constant_source_ok: "random_source_ok (constant_source v)"
proof -
  have "is_permutation n (map int [0..<n])" for n
  proof -
    have "distinct (map int [0..<n])"
      by (simp add: distinct_map)
    moreover have "k \<in> set (map int [0..<n])" if "k \<in> {0..<int n}" for k
    proof -
      from that have "k = int (nat k)" "nat k \<in> {0..<n}" by auto
      then have "k \<in> int ` {0..<n}" by (rule image_eqI)
      then show ?thesis by simp
    qed
    ultimately show ?thesis
      by (simp add: is_permutation_def distinct_count_list_one del: set_map)
  qed
  then show ?thesis
    by (simp add: random_source_ok_def constant_source_def)
qed

lemma constant_candidate:
  "candidate (constant_source 5) 10 () = Inr ((''55555'', ''55555''), ())"
  by (simp add: candidate_def uniform_def constant_source_def digits_A.simps digits_B.simps
      char_of_eq_iff)

text \<open>
  The constant source with \<open>v = 5\<close> and the tier 10: every candidate is the pair of
  \<open>55555\<close> and \<open>55555\<close>, ten characters. With the budget 2147483640 the total reaches the
  budget after 214748364 pairs, the next pair takes it to 2147483650, which is
  \<open>-2147483646\<close> as an \<open>int\<close>, so the pair is accepted, and the loop stops only when the
  total reaches 2147483644 the second time round.
\<close>

lemma constant_run_2147483640:
  "medium_loop (constant_source 5) 10 2147483640 () 0 [] [] =
     Some (Inr (replicate 644245093 ''55555'', replicate 644245093 ''55555''))"
proof -
  note c = constant_candidate
  have len: "(10 :: int) = int (length ''55555'') + int (length ''55555'')"
    by simp
  have "medium_loop (constant_source 5) 10 2147483640 () 0 [] [] =
      medium_loop (constant_source 5) 10 2147483640 () 2147483640
        (replicate 214748364 ''55555'') (replicate 214748364 ''55555'')"
    using medium_loop_block [OF c len, where L = 0 and j = 214748364 and S = 2147483640 and k = 0]
    by simp
  also have "\<dots> = medium_loop (constant_source 5) 10 2147483640 () (- 2147483646)
        (replicate 214748365 ''55555'') (replicate 214748365 ''55555'')"
    using medium_loop_accept [OF c, where L = 2147483640 and S = 2147483640 and k = 214748364]
    by (simp add: int32_def)
  also have "\<dots> = medium_loop (constant_source 5) 10 2147483640 () 2147483634
        (replicate 644245093 ''55555'') (replicate 644245093 ''55555'')"
    using medium_loop_block [OF c len, where L = "- 2147483646" and j = 429496728
        and S = 2147483640 and k = 214748365]
    by simp
  also have "\<dots> = Some (Inr (replicate 644245093 ''55555'', replicate 644245093 ''55555''))"
    using medium_loop_stop [OF c, where L = 2147483634 and S = 2147483640]
    by (simp add: int32_def)
  finally show ?thesis .
qed

text \<open>
  With the budget 2147483644 the total wraps around four times before it stops: it
  passes 2147483640, 2147483644, 2147483638 and 2147483642 without exceeding the budget
  and stops at 2147483646 the fifth time round.
\<close>

lemma constant_run_2147483644:
  "medium_loop (constant_source 5) 10 2147483644 () 0 [] [] =
     Some (Inr (replicate 1932735282 ''55555'', replicate 1932735282 ''55555''))"
proof -
  note c = constant_candidate
  have len: "(10 :: int) = int (length ''55555'') + int (length ''55555'')"
    by simp
  have "medium_loop (constant_source 5) 10 2147483644 () 0 [] [] =
      medium_loop (constant_source 5) 10 2147483644 () 2147483640
        (replicate 214748364 ''55555'') (replicate 214748364 ''55555'')"
    using medium_loop_block [OF c len, where L = 0 and j = 214748364 and S = 2147483644 and k = 0]
    by simp
  also have "\<dots> = medium_loop (constant_source 5) 10 2147483644 () (- 2147483646)
        (replicate 214748365 ''55555'') (replicate 214748365 ''55555'')"
    using medium_loop_accept [OF c, where L = 2147483640 and S = 2147483644 and k = 214748364]
    by (simp add: int32_def)
  also have "\<dots> = medium_loop (constant_source 5) 10 2147483644 () 2147483644
        (replicate 644245094 ''55555'') (replicate 644245094 ''55555'')"
    using medium_loop_block [OF c len, where L = "- 2147483646" and j = 429496729
        and S = 2147483644 and k = 214748365]
    by simp
  also have "\<dots> = medium_loop (constant_source 5) 10 2147483644 () (- 2147483642)
        (replicate 644245095 ''55555'') (replicate 644245095 ''55555'')"
    using medium_loop_accept [OF c, where L = 2147483644 and S = 2147483644 and k = 644245094]
    by (simp add: int32_def)
  also have "\<dots> = medium_loop (constant_source 5) 10 2147483644 () 2147483638
        (replicate 1073741823 ''55555'') (replicate 1073741823 ''55555'')"
    using medium_loop_block [OF c len, where L = "- 2147483642" and j = 429496728
        and S = 2147483644 and k = 644245095]
    by simp
  also have "\<dots> = medium_loop (constant_source 5) 10 2147483644 () (- 2147483648)
        (replicate 1073741824 ''55555'') (replicate 1073741824 ''55555'')"
    using medium_loop_accept [OF c, where L = 2147483638 and S = 2147483644 and k = 1073741823]
    by (simp add: int32_def)
  also have "\<dots> = medium_loop (constant_source 5) 10 2147483644 () 2147483642
        (replicate 1503238553 ''55555'') (replicate 1503238553 ''55555'')"
    using medium_loop_block [OF c len, where L = "- 2147483648" and j = 429496729
        and S = 2147483644 and k = 1073741824]
    by simp
  also have "\<dots> = medium_loop (constant_source 5) 10 2147483644 () (- 2147483644)
        (replicate 1503238554 ''55555'') (replicate 1503238554 ''55555'')"
    using medium_loop_accept [OF c, where L = 2147483642 and S = 2147483644 and k = 1503238553]
    by (simp add: int32_def)
  also have "\<dots> = medium_loop (constant_source 5) 10 2147483644 () 2147483636
        (replicate 1932735282 ''55555'') (replicate 1932735282 ''55555'')"
    using medium_loop_block [OF c len, where L = "- 2147483644" and j = 429496728
        and S = 2147483644 and k = 1503238554]
    by simp
  also have "\<dots> = Some (Inr (replicate 1932735282 ''55555'', replicate 1932735282 ''55555''))"
    using medium_loop_stop [OF c, where L = 2147483636 and S = 2147483644]
    by (simp add: int32_def)
  finally show ?thesis .
qed

lemma constant_main_2147483640:
  "medium_main (constant_source 5) stray wild 2147483640 0 =
     Some (Inr \<lparr>count_line = 644245093,
                 pair_lines = replicate 644245093 (''55555'', ''55555'')\<rparr>)"
proof -
  have "read_upper stray 0 = 10"
    by (simp add: read_upper_def tier_reachable)
  moreover have "construct (constant_source 5) (engine_seed wild 0) = ()"
    by simp
  moreover have "int32 644245093 = 644245093"
    by (simp add: int32_def)
  ultimately show ?thesis
    using constant_run_2147483640
    by (simp add: medium_main_def print_pairs_replicate)
qed

lemma constant_main_2147483644:
  "medium_main (constant_source 5) stray wild 2147483644 0 =
     Some (Inr \<lparr>count_line = 1932735282,
                 pair_lines = replicate 1932735282 (''55555'', ''55555'')\<rparr>)"
proof -
  have "read_upper stray 0 = 10"
    by (simp add: read_upper_def tier_reachable)
  moreover have "construct (constant_source 5) (engine_seed wild 0) = ()"
    by simp
  moreover have "int32 1932735282 = 1932735282"
    by (simp add: int32_def)
  ultimately show ?thesis
    using constant_run_2147483644
    by (simp add: medium_main_def print_pairs_replicate)
qed

subsection \<open>The character budget\<close>

text \<open>
  Claim C2 says that for every seed and every budget \<open>SUM_OF_CHARACTER_LENGTH\<close> the pairs
  that the Bounded-Digit-Pair Generator prints have at most that many characters in
  total. The running total is an \<open>int\<close>: with a budget close to \<open>2^31 - 1\<close> it can pass
  the budget by wrapping around to a negative value, and the pair is accepted. With the
  constant source, the seed 0 and the budget 2147483640 the run prints 644245093 pairs
  of ten characters each, 6442450930 characters.
\<close>

theorem medium_total_exceeds_budget:
  "random_source_ok (constant_source 5) \<and>
   medium_main (constant_source 5) 0 0 2147483640 0 =
     Some (Inr \<lparr>count_line = 644245093,
                 pair_lines = replicate 644245093 (''55555'', ''55555'')\<rparr>) \<and>
   total_length (replicate 644245093 (''55555'', ''55555'')) = 6442450930 \<and>
   \<not> total_length (replicate 644245093 (''55555'', ''55555'')) \<le> 2147483640"
  by (simp add: constant_source_ok constant_main_2147483640 total_length_replicate)

text \<open>
  Claim C2 as amended: for every seed and every budget \<open>S \<ge> 0\<close> with
  \<open>S + 2 * upper \<le> 2^31 - 1\<close>, where \<open>upper\<close> is the bound of the lengths that the run
  reads for its seed (10, 300 or 10000 when the seed is not negative), the pairs that
  the Bounded-Digit-Pair Generator prints have at most \<open>S\<close> characters in total. The
  printed pairs are the candidates built up to some state \<open>g\<close> of the engine, each of
  them whole, in the order in which they were built; the candidate \<open>(sa, sb)\<close> built
  next would take the total above the budget, and the loop stops there without printing
  any part of it.
\<close>

theorem medium_pairs_within_budget:
  assumes "random_source_ok R" and "0 \<le> S" and "S + 2 * read_upper stray seed \<le> 2147483647"
    and "medium_main R stray wild S seed = Some (Inr out)"
  shows "total_length (pair_lines out) \<le> S \<and>
    (\<exists>g sa sb g'.
       candidates R (read_upper stray seed) (construct R (engine_seed wild seed)) (pair_lines out) g \<and>
       candidate R (read_upper stray seed) g = Inr ((sa, sb), g') \<and>
       S < total_length (pair_lines out) + int (length sa) + int (length sb))"
proof -
  from medium_main_result [OF assms(4)] assms(1-3) obtain cs g1 sa sb g2 where
    "candidates R (read_upper stray seed) (construct R (engine_seed wild seed)) cs g1"
    "candidate R (read_upper stray seed) g1 = Inr ((sa, sb), g2)"
    "total_length cs \<le> S" "S < total_length cs + int (length sa) + int (length sb)"
    "pair_lines out = cs"
    by auto
  then show ?thesis by auto
qed

theorem medium_pairs_within_budget_witness:
  "random_source_ok counter_source \<and> (0 :: int) \<le> 25 \<and>
   25 + 2 * read_upper 0 0 \<le> 2147483647 \<and>
   medium_main counter_source 0 0 25 0 =
     Some (Inr \<lparr>count_line = 2, pair_lines = [(''1901234'', ''867890''), (''856'', ''28'')]\<rparr>) \<and>
   total_length [(''1901234'', ''867890''), (''856'', ''28'')] \<le> 25 \<and>
   (\<exists>g sa sb g'.
      candidates counter_source (read_upper 0 0) (construct counter_source (engine_seed 0 0))
        [(''1901234'', ''867890''), (''856'', ''28'')] g \<and>
      candidate counter_source (read_upper 0 0) g = Inr ((sa, sb), g') \<and>
      25 < total_length [(''1901234'', ''867890''), (''856'', ''28'')] +
        int (length sa) + int (length sb))"
proof -
  have up: "read_upper 0 0 = 10"
    by (simp add: read_upper_def tier_reachable)
  then have "25 + 2 * read_upper 0 0 \<le> 2147483647"
    by simp
  from medium_pairs_within_budget [OF counter_source_ok _ this medium_main_example]
    counter_source_ok medium_main_example up
  show ?thesis by simp
qed

subsection \<open>Leading digits\<close>

text \<open>
  Claim C4: for every seed, in every pair \<open>(A, B)\<close> that the Bounded-Digit-Pair Generator
  prints, \<open>B\<close> has at least one character and does not start with \<open>0\<close>, and \<open>A\<close> (which
  has at least one character too) starts with \<open>0\<close> only if it is one character long.
\<close>

theorem medium_pairs_leading_digits:
  assumes "random_source_ok R" and "medium_main R stray wild S seed = Some (Inr out)"
  shows "\<forall>(a, b) \<in> set (pair_lines out).
    1 \<le> length b \<and> hd b \<noteq> CHR ''0'' \<and> 1 \<le> length a \<and> (hd a = CHR ''0'' \<longrightarrow> length a = 1)"
proof -
  from medium_main_result [OF assms(2)] obtain cs g1 where
    cs: "candidates R (read_upper stray seed) (construct R (engine_seed wild seed)) cs g1" and
    printed: "pair_lines out = take (nat (int32 (int (length cs)))) cs"
    by auto
  from printed have "set (pair_lines out) \<subseteq> set cs"
    by (simp add: set_take_subset)
  with candidates_result [OF assms(1) cs] show ?thesis
    by fastforce
qed

theorem medium_pairs_leading_digits_witness:
  "random_source_ok counter_source \<and>
   medium_main counter_source 0 0 25 0 =
     Some (Inr \<lparr>count_line = 2, pair_lines = [(''1901234'', ''867890''), (''856'', ''28'')]\<rparr>) \<and>
   list_all (\<lambda>(a, b). 1 \<le> length b \<and> hd b \<noteq> CHR ''0'' \<and> 1 \<le> length a \<and>
       (hd a = CHR ''0'' \<longrightarrow> length a = 1))
     [(''1901234'', ''867890''), (''856'', ''28'')]"
  using medium_pairs_leading_digits [OF counter_source_ok medium_main_example]
    counter_source_ok medium_main_example
  by simp

subsection \<open>Termination of the generation loop\<close>




subsection \<open>The number of pairs\<close>

text \<open>
  Claim C10 says that for every seed the count on the first line that the
  Bounded-Digit-Pair Generator prints is at most \<open>SUM_OF_CHARACTER_LENGTH / 2\<close>. With a
  budget close to \<open>2^31 - 1\<close> the \<open>int\<close> running total can wrap around several times
  before it exceeds the budget. With the constant source, the seed 0 and the budget
  2147483644 the run prints the count 1932735282 and as many pairs; half the budget is
  1073741822.
\<close>

theorem medium_count_exceeds_half_budget:
  "random_source_ok (constant_source 5) \<and>
   medium_main (constant_source 5) 0 0 2147483644 0 =
     Some (Inr \<lparr>count_line = 1932735282,
                 pair_lines = replicate 1932735282 (''55555'', ''55555'')\<rparr>) \<and>
   (2147483644 :: int) div 2 = 1073741822 \<and>
   \<not> (1932735282 :: int) \<le> 2147483644 div 2"
  by (simp add: constant_source_ok constant_main_2147483644)

text \<open>
  Claim C10 as amended: for every seed and every budget \<open>S \<ge> 0\<close> with
  \<open>S + 2 * upper \<le> 2^31 - 1\<close>, where \<open>upper\<close> is the bound of the lengths that the run
  reads for its seed, the count on the first line that the Bounded-Digit-Pair Generator
  prints is the number of pairs it prints and is at most \<open>S / 2\<close>, since in every printed
  pair both strings have at least one character.
\<close>

theorem medium_count_at_most_half_budget:
  assumes "random_source_ok R" and "0 \<le> S" and "S + 2 * read_upper stray seed \<le> 2147483647"
    and "medium_main R stray wild S seed = Some (Inr out)"
  shows "count_line out = int (length (pair_lines out)) \<and> count_line out \<le> S div 2 \<and>
    list_all (\<lambda>(a, b). 1 \<le> length a \<and> 1 \<le> length b) (pair_lines out)"
proof -
  from medium_main_result [OF assms(4)] assms(1-3) obtain cs g1 where
    cs: "candidates R (read_upper stray seed) (construct R (engine_seed wild seed)) cs g1" and
    total: "total_length cs \<le> S" and
    printed: "pair_lines out = cs" "count_line out = int (length cs)"
    by auto
  from candidates_result [OF assms(1) cs] have
    each: "\<forall>(a, b) \<in> set cs. 1 \<le> length a \<and> 1 \<le> length b"
    by fastforce
  from total_length_lower [OF each] total have "2 * count_line out \<le> S"
    by (simp add: printed)
  then have "count_line out \<le> S div 2" by simp
  with printed each show ?thesis
    by (simp add: list_all_iff)
qed

theorem medium_count_at_most_half_budget_witness:
  "random_source_ok counter_source \<and> (0 :: int) \<le> 25 \<and>
   25 + 2 * read_upper 0 0 \<le> 2147483647 \<and>
   medium_main counter_source 0 0 25 0 =
     Some (Inr \<lparr>count_line = 2, pair_lines = [(''1901234'', ''867890''), (''856'', ''28'')]\<rparr>) \<and>
   (2 :: int) = int (length [(''1901234'', ''867890''), (''856'', ''28'')]) \<and>
   (2 :: int) \<le> 25 div 2 \<and>
   list_all (\<lambda>(a, b). 1 \<le> length a \<and> 1 \<le> length b)
     [(''1901234'', ''867890''), (''856'', ''28'')]"
proof -
  have "read_upper 0 0 = 10"
    by (simp add: read_upper_def tier_reachable)
  then have "25 + 2 * read_upper 0 0 \<le> 2147483647"
    by simp
  from medium_count_at_most_half_budget [OF counter_source_ok _ this medium_main_example]
    counter_source_ok medium_main_example this
  show ?thesis by simp
qed

subsection \<open>Runs on random sources that make the same draws\<close>

lemma same_draws_refl: "same_draws R R (=)"
  by (simp add: same_draws_def)

lemma same_draws_converse: "same_draws R1 R2 rel \<Longrightarrow> same_draws R2 R1 (\<lambda>h g. rel g h)"
  by (simp add: same_draws_def)

lemma uniform_same:
  assumes "same_draws R1 R2 rel" and "rel g h"
  shows "rel_sum (=) (rel_prod (=) rel) (uniform R1 lo hi g) (uniform R2 lo hi h)"
proof -
  from assms have "fst (draw R1 lo hi g) = fst (draw R2 lo hi h)"
    "rel (snd (draw R1 lo hi g)) (snd (draw R2 lo hi h))"
    unfolding same_draws_def by blast+
  then have "rel_prod (=) rel (draw R1 lo hi g) (draw R2 lo hi h)"
    by (simp add: rel_prod_sel)
  then show ?thesis by (simp add: uniform_def)
qed

lemma uniform_same_cases:
  assumes "same_draws R1 R2 rel" and "rel g h"
  obtains e where "uniform R1 lo hi g = Inl e" "uniform R2 lo hi h = Inl e"
  | x g' h' where "uniform R1 lo hi g = Inr (x, g')" "uniform R2 lo hi h = Inr (x, h')" "rel g' h'"
proof -
  from uniform_same [OF assms, of lo hi] show thesis
    by (cases rule: rel_sum.cases) (auto intro: that)
qed

lemma vertex_values_same:
  "same_draws R1 R2 rel \<Longrightarrow> rel g h \<Longrightarrow>
    rel_sum (=) (rel_prod (=) rel) (vertex_values R1 n X i g out) (vertex_values R2 n X i h out)"
proof (induction R1 n X i g out arbitrary: h rule: vertex_values.induct)
  case (1 R1 n X i g out)
  show ?case
  proof (cases "i < n")
    case False
    with "1.prems" show ?thesis
      by (simp add: vertex_values.simps [of _ n X i])
  next
    case True
    from "1.prems" show ?thesis
    proof (cases rule: uniform_same_cases [where lo = 0 and hi = X])
      case (1 e)
      with True show ?thesis
        by (simp add: vertex_values.simps [of _ n X i])
    next
      case (2 a g' h')
      from "1.IH" [OF True 2(1) refl "1.prems"(1) 2(3)] 2 True show ?thesis
        by (simp add: vertex_values.simps [of _ n X i])
    qed
  qed
qed

lemma queries_same:
  "same_draws R1 R2 rel \<Longrightarrow> rel g h \<Longrightarrow>
    rel_sum (=) (rel_prod (=) rel) (queries R1 n X q i g out) (queries R2 n X q i h out)"
proof (induction R1 n X q i g out arbitrary: h rule: queries.induct)
  case (1 R1 n X q i g out)
  note sd = "1.prems"(1)
  show ?case
  proof (cases "i < q")
    case False
    with "1.prems" show ?thesis
      by (simp add: queries.simps [of _ n X q i])
  next
    case True
    from "1.prems" show ?thesis
    proof (cases rule: uniform_same_cases [where lo = 0 and hi = 1])
      case (1 e)
      with True show ?thesis
        by (simp add: queries.simps [of _ n X q i])
    next
      case t: (2 t g1 h1)
      from sd t(3) show ?thesis
      proof (cases rule: uniform_same_cases [where lo = 0 and hi = "n - 1"])
        case (1 e)
        with True t show ?thesis
          by (simp add: queries.simps [of _ n X q i])
      next
        case a: (2 a g2 h2)
        show ?thesis
        proof (cases "t = 0")
          case t0: True
          from sd a(3) show ?thesis
          proof (cases rule: uniform_same_cases [where lo = 0 and hi = X])
            case (1 e)
            with True t a t0 show ?thesis
              by (simp add: queries.simps [of _ n X q i])
          next
            case b: (2 b g3 h3)
            from "1.IH"(1) [OF True t(1) refl t0 a(1) refl b(1) refl sd b(3)] True t a t0 b
            show ?thesis
              by (simp add: queries.simps [of _ n X q i])
          qed
        next
          case t1: False
          from sd a(3) show ?thesis
          proof (cases rule: uniform_same_cases [where lo = 0 and hi = "n - 1"])
            case (1 e)
            with True t a t1 show ?thesis
              by (simp add: queries.simps [of _ n X q i])
          next
            case b: (2 b g3 h3)
            from "1.IH"(2) [OF True t(1) refl t1 a(1) refl b(1) refl sd b(3)] True t a t1 b
            show ?thesis
              by (simp add: queries.simps [of _ n X q i])
          qed
        qed
      qed
    qed
  qed
qed

lemma same_results_cases:
  assumes "rel_sum (=) (rel_prod (=) rel) r1 r2"
  obtains e where "r1 = Inl e" "r2 = Inl e"
  | x g' h' where "r1 = Inr (x, g')" "r2 = Inr (x, h')" "rel g' h'"
  using assms by (cases rule: rel_sum.cases) (auto intro: that)

lemma line_main_same:
  assumes sd: "same_draws R1 R2 rel"
  shows "line_main R1 N X seed = line_main R2 N X seed"
proof -
  from sd have "rel (construct R1 seed) (construct R2 seed)"
    by (simp add: same_draws_def)
  from vertex_values_same [OF sd this, of N X 0 "[]"] show ?thesis
  proof (cases rule: same_results_cases)
    case (1 e)
    then show ?thesis by (simp add: line_main_def)
  next
    case vals: (2 vals g1 h1)
    obtain p g2 where p1: "draw_perm R1 (nat N) g1 = (p, g2)"
      by (cases "draw_perm R1 (nat N) g1")
    obtain p' h2 where p2: "draw_perm R2 (nat N) h1 = (p', h2)"
      by (cases "draw_perm R2 (nat N) h1")
    from sd vals(3) have "fst (draw_perm R1 (nat N) g1) = fst (draw_perm R2 (nat N) h1)"
      "rel (snd (draw_perm R1 (nat N) g1)) (snd (draw_perm R2 (nat N) h1))"
      unfolding same_draws_def by blast+
    with p1 p2 have p: "p' = p" and rel2: "rel g2 h2" by simp_all
    from queries_same [OF sd rel2, of N X N 0 "[]"] show ?thesis
    proof (cases rule: same_results_cases)
      case (1 e)
      with vals p1 p2 p show ?thesis
        by (simp add: line_main_def split: sum.splits prod.splits)
    next
      case (2 qs g3 h3)
      with vals p1 p2 p show ?thesis
        by (simp add: line_main_def split: sum.splits prod.splits)
    qed
  qed
qed

lemma digits_A_same:
  "same_draws R1 R2 rel \<Longrightarrow> rel g h \<Longrightarrow>
    rel_sum (=) (rel_prod (=) rel) (digits_A R1 alen i g sa) (digits_A R2 alen i h sa)"
proof (induction R1 alen i g sa arbitrary: h rule: digits_A.induct)
  case (1 R1 alen i g sa)
  show ?case
  proof (cases "i < alen")
    case False
    with "1.prems" show ?thesis
      by (simp add: digits_A.simps [of _ alen i])
  next
    case True
    define lower :: int where "lower = (if alen \<noteq> 1 \<and> i = 0 then 1 else 0)"
    from "1.prems" show ?thesis
    proof (cases rule: uniform_same_cases [where lo = lower and hi = 9])
      case (1 e)
      with True show ?thesis
        by (simp add: digits_A.simps [of _ alen i] lower_def)
    next
      case (2 d g' h')
      from "1.IH" [OF True lower_def 2(1) refl "1.prems"(1) 2(3)] 2 True show ?thesis
        by (simp add: digits_A.simps [of _ alen i] lower_def)
    qed
  qed
qed

lemma digits_B_same:
  "same_draws R1 R2 rel \<Longrightarrow> rel g h \<Longrightarrow>
    rel_sum (=) (rel_prod (=) rel) (digits_B R1 blen i g sb) (digits_B R2 blen i h sb)"
proof (induction R1 blen i g sb arbitrary: h rule: digits_B.induct)
  case (1 R1 blen i g sb)
  show ?case
  proof (cases "i < blen")
    case False
    with "1.prems" show ?thesis
      by (simp add: digits_B.simps [of _ blen i])
  next
    case True
    define lower :: int where "lower = (if i = 0 then 1 else 0)"
    from "1.prems" show ?thesis
    proof (cases rule: uniform_same_cases [where lo = lower and hi = 9])
      case (1 e)
      with True show ?thesis
        by (simp add: digits_B.simps [of _ blen i] lower_def)
    next
      case (2 d g' h')
      from "1.IH" [OF True lower_def 2(1) refl "1.prems"(1) 2(3)] 2 True show ?thesis
        by (simp add: digits_B.simps [of _ blen i] lower_def)
    qed
  qed
qed

lemma candidate_same:
  assumes sd: "same_draws R1 R2 rel" and rel: "rel g h"
  shows "rel_sum (=) (rel_prod (=) rel) (candidate R1 upper g) (candidate R2 upper h)"
  using sd rel
proof (cases rule: uniform_same_cases [where lo = 1 and hi = upper])
  case (1 e)
  then show ?thesis by (simp add: candidate_def)
next
  case a: (2 alen0 g1 h1)
  from sd a(3) show ?thesis
  proof (cases rule: uniform_same_cases [where lo = 1 and hi = upper])
    case (1 e)
    with a show ?thesis by (simp add: candidate_def)
  next
    case b: (2 blen0 g2 h2)
    from sd b(3) show ?thesis
    proof (cases rule: uniform_same_cases [where lo = 0 and hi = 9])
      case (1 e)
      with a b show ?thesis by (simp add: candidate_def)
    next
      case x: (2 x g3 h3)
      define alen where "alen = (if x \<noteq> 0 \<and> alen0 < blen0 then blen0 else alen0)"
      define blen where "blen = (if x \<noteq> 0 \<and> alen0 < blen0 then alen0 else blen0)"
      have sw: "(if x \<noteq> 0 \<and> alen0 < blen0 then (blen0, alen0) else (alen0, blen0)) = (alen, blen)"
        by (simp add: alen_def blen_def)
      from digits_A_same [OF sd x(3), of alen 0 "[]"] show ?thesis
      proof (cases rule: same_results_cases)
        case (1 e)
        with a b x show ?thesis
          by (simp add: candidate_def sw)
      next
        case sa: (2 sa g4 h4)
        from digits_B_same [OF sd sa(3), of blen 0 "[]"] show ?thesis
        proof (cases rule: same_results_cases)
          case (1 e)
          with a b x sa show ?thesis
            by (simp add: candidate_def sw)
        next
          case (2 sb g5 h5)
          with a b x sa show ?thesis
            by (simp add: candidate_def sw)
        qed
      qed
    qed
  qed
qed

lemma medium_loop_same_Some:
  assumes "medium_loop R1 upper S g lsum A B = Some r"
  shows "same_draws R1 R2 rel \<Longrightarrow> rel g h \<Longrightarrow> medium_loop R2 upper S h lsum A B = Some r"
  using assms
proof (induction arbitrary: h rule: medium_loop.raw_induct [rotated 1, consumes 1])
  case (1 loop R1 upper S g lsum A B r)
  from candidate_same [OF "1.prems", of upper] show ?case
  proof (cases rule: same_results_cases)
    case (1 e)
    with "1.hyps" show ?thesis
      by (subst medium_loop.simps) simp
  next
    case (2 c g' h')
    obtain sa sb where c: "c = (sa, sb)" by (cases c)
    define lsum' where "lsum' = int32 (lsum + int (length sa) + int (length sb))"
    show ?thesis
    proof (cases "S < lsum'")
      case True
      with "1.hyps" 2 c show ?thesis
        by (subst medium_loop.simps) (simp add: lsum'_def)
    next
      case False
      with "1.hyps" 2 c have "loop R1 upper S g' lsum' (A @ [sa]) (B @ [sb]) = Some r"
        by (simp add: lsum'_def)
      from "1.IH" [OF this "1.prems"(1) 2(3)] False 2 c show ?thesis
        by (subst medium_loop.simps) (simp add: lsum'_def)
    qed
  qed
qed

lemma medium_loop_same:
  assumes sd: "same_draws R1 R2 rel" and rel: "rel g h"
  shows "medium_loop R1 upper S g lsum A B = medium_loop R2 upper S h lsum A B"
proof (cases "medium_loop R1 upper S g lsum A B")
  case (Some r)
  with medium_loop_same_Some [OF Some sd rel] show ?thesis by simp
next
  case None
  show ?thesis
  proof (cases "medium_loop R2 upper S h lsum A B")
    case (Some r)
    from medium_loop_same_Some [OF Some same_draws_converse [OF sd]] rel
    have "medium_loop R1 upper S g lsum A B = Some r" by simp
    with None show ?thesis by simp
  next
    case None': None
    with None show ?thesis by simp
  qed
qed

text \<open>
  The run of the Bounded-Digit-Pair Generator is the same on two random sources that
  make the same draws, whenever the two runs construct their engines from the same
  value and read the same upper bound of the lengths. For a seed from 0 to
  \<open>2^63 - 1 - 12345\<close> they do, whatever the memory beside the table holds.
\<close>

lemma medium_main_same:
  assumes sd: "same_draws R1 R2 rel"
    and up: "read_upper stray1 seed = read_upper stray2 seed"
    and es: "engine_seed wild1 seed = engine_seed wild2 seed"
  shows "medium_main R1 stray1 wild1 S seed = medium_main R2 stray2 wild2 S seed"
proof -
  from sd have
    "rel (construct R1 (engine_seed wild1 seed)) (construct R2 (engine_seed wild1 seed))"
    by (simp add: same_draws_def)
  from medium_loop_same [OF sd this, of "read_upper stray1 seed" S 0 "[]" "[]"] up es
  show ?thesis
    by (simp add: medium_main_def)
qed

lemma medium_main_same_defined_seed:
  assumes sd: "same_draws R1 R2 rel" and seed: "0 \<le> sint seed"
    and sum: "sint seed + 12345 \<le> 9223372036854775807"
  shows "medium_main R1 stray1 wild1 S seed = medium_main R2 stray2 wild2 S seed"
proof -
  from tier_nonnegative_seed [OF seed] have "read_upper stray1 seed = read_upper stray2 seed"
    by (simp add: read_upper_def)
  moreover from sum have "engine_seed wild1 seed = engine_seed wild2 seed"
    by (simp add: engine_seed_def)
  ultimately show ?thesis
    using sd by (intro medium_main_same)
qed

lemma counter_sources_same_draws:
  "same_draws counter_source int_counter_source (\<lambda>g h. h = int g)"
  by (simp add: same_draws_def counter_source_def int_counter_source_def)

subsection \<open>Determinism\<close>

text \<open>
  Claim C3 says that for every seed two runs of the same generator with the same seed
  print the same output, every printed token being a function of the seed and the fixed
  constants only. The Tree-Query Generator reads nothing but the seed, the constants
  and the values drawn (\<open>line_main_same\<close>), and so does the Bounded-Digit-Pair Generator
  for a seed from 0 to \<open>2^63 - 1 - 12345\<close> (\<open>medium_main_same_defined_seed\<close>). For the seed
  \<open>-1\<close> the Bounded-Digit-Pair Generator takes the upper bound of the lengths from the
  memory beside the table, which is neither the seed nor a constant: on one random
  source and with one budget, the run ends in \<open>InvalidRangeError\<close> when the word it
  finds there is 0, and prints one pair when the word is 33.
\<close>

theorem medium_negative_seed_output_varies:
  "medium_main counter_source 0 0 25 (- 1) = Some (Inl InvalidRangeError) \<and>
   medium_main counter_source 33 0 25 (- 1) =
     Some (Inr \<lparr>count_line = 1, pair_lines = [(''9890'', ''423'')]\<rparr>) \<and>
   medium_main counter_source 0 0 25 (- 1) \<noteq> medium_main counter_source 33 0 25 (- 1)"
proof -
  have "tier (- 1) = Inl IndexOutOfRange"
    by (rule tier_negative_seed) simp_all
  from medium_main_stray_zero [OF this, of counter_source 0 25] medium_main_stray_example
  show ?thesis by simp
qed

subsection \<open>Valid ranges\<close>



subsection \<open>The size zero\<close>

text \<open>
  Claim C6 says that with \<open>N_AND_Q_MAX = 0\<close> the Tree-Query Generator completes without
  error and that no container construction fails. The run on the counter source with
  \<open>N_AND_Q_MAX = 0\<close>, \<open>A_AND_X_MAX = 5\<close> and the seed 1 ends in the length error.
\<close>

theorem line_main_size_zero_example:
  "line_main counter_source 0 5 1 = Inl LengthError"
  by (simp add: line_main_def vector_int_def vertex_values.simps)

text \<open>
  Claim C6 as amended: for every seed, if \<open>N_AND_Q_MAX = 0\<close> the Tree-Query Generator does
  not complete; it fails at once. No value is drawn, so no draw fails, and then
  \<^verbatim>\<open>vector<int> u(n - 1)\<close> is constructed with \<open>n - 1 = -1\<close>, which throws: for every
  random source, bound \<open>A_AND_X_MAX\<close> and seed, the run with \<open>N_AND_Q_MAX = 0\<close> ends in
  the length error.
\<close>

theorem line_main_size_zero_fails: "line_main R 0 X seed = Inl LengthError"
  by (simp add: line_main_def vector_int_def vertex_values.simps)

theorem line_main_size_zero_fails_witness:
  "line_main int_counter_source 0 100 42 = Inl LengthError"
  using line_main_size_zero_fails [of int_counter_source 100 42] by simp

subsection \<open>The tier selected by a negative seed\<close>

text \<open>
  Claim C5 says that every 64-bit seed selects one of the tiers 10, 300, 10000 through
  \<open>seed mod 3\<close>. For the seed \<open>-1\<close> the remainder \<^verbatim>\<open>seed % 3\<close> is \<open>-1\<close>, the index
  is \<open>2^64 - 1\<close>, and the read is outside the three-element table: no tier is
  selected. The run of the Bounded-Digit-Pair Generator goes on with the word that it
  finds there, whatever it is, as the upper bound of the lengths; when this word is 0
  the first draw of a length is \<open>uniform(1, 0)\<close>, and the run ends in
  \<open>InvalidRangeError\<close>.
\<close>

theorem tier_negative_seed_out_of_range:
  "tier (- 1) = Inl IndexOutOfRange \<and> read_upper stray (- 1) = stray \<and>
   medium_main R 0 wild S (- 1) = Some (Inl InvalidRangeError)"
proof -
  have "unat (- 1 :: 64 word) = 18446744073709551615"
    by (simp add: unsigned_minus_1_eq_mask mask_eq_exp_minus_1)
  then have t: "tier (- 1) = Inl IndexOutOfRange"
    by (simp add: tier_def smod_int_alt_def tiers_def Let_def)
  from t medium_main_stray_zero [OF t, of R wild S] show ?thesis
    by (simp add: read_upper_def)
qed

end
